theory Spec2Isabelle
  imports Main
begin

section \<open>The task pool of \<^verbatim>\<open>libdialog/dialog/task_pool.h\<close>\<close>

text \<open>
  The header defines three classes: \<^verbatim>\<open>task_queue\<close> (a blocking queue of type-erased
  units of work), \<^verbatim>\<open>task_worker\<close> (a thread that takes units off a queue and runs
  them) and \<^verbatim>\<open>task_pool\<close> (the owner of one queue and a vector of workers).

  Naming: a trailing underscore is not a legal end of an Isabelle name, so a C++ member
  \<^verbatim>\<open>x_\<close> is written \<open>x_m\<close> here: \<^verbatim>\<open>valid_\<close> is \<open>valid_m\<close>, \<^verbatim>\<open>queue_\<close> is
  \<open>queue_m\<close>, \<^verbatim>\<open>stop_\<close> is \<open>stop_m\<close>, and so on. The member \<^verbatim>\<open>valid\<close> (without the
  underscore) keeps its name. \<^verbatim>\<open>task_pool::queue_\<close> is \<open>pool_queue_m\<close>, since
  \<^verbatim>\<open>task_queue::queue_\<close> already is \<open>queue_m\<close>.

  Concurrency: every member function of \<^verbatim>\<open>task_queue\<close> holds \<^verbatim>\<open>mutex_\<close> for its whole
  body, so each body is one atomic transition of the queue and the mutex itself carries no
  state between transitions. The only place where the lock is given up inside a body is
  \<^verbatim>\<open>condition_.wait\<close>; there the calling thread is entered into the wait set of the
  condition variable and takes no further step until a notification (or a spurious
  wakeup) removes it from that set, after which it evaluates the wait predicate again.
\<close>

subsection \<open>Callables, packaged tasks, futures\<close>

text \<open>
  A thrown C++ object is either derived from \<^verbatim>\<open>std::exception\<close> (it then has a
  \<^verbatim>\<open>what()\<close> string) or it is not.
\<close>

datatype exn = Std_exception string | Other_exception

text \<open>
  \<^verbatim>\<open>std::bind(f, args...)\<close> is a callable without arguments; invoked, it returns a value
  or throws.
\<close>

datatype 'v callable = Returns 'v | Throws exn

text \<open>
  The shared state between a \<^verbatim>\<open>std::packaged_task\<close> and its \<^verbatim>\<open>std::future\<close>: not
  ready, or ready with the value the callable returned, or ready with the exception the
  callable threw, or ready with the \<^verbatim>\<open>std::future_error\<close> of a broken promise, which the
  destructor of a packaged task stores when the task has never been called.
\<close>

datatype 'v shared_state = Not_ready | Has_value 'v | Has_exception exn | Broken_promise

record 'v packaged_task =
  stored :: "'v callable"
  state :: "'v shared_state"

text \<open>
  \<^verbatim>\<open>std::make_shared\<close> allocates the packaged tasks; the heap is the list of all of them
  and a \<^verbatim>\<open>shared_ptr\<close> is an index into it. A \<^verbatim>\<open>std::future\<close> is the index of the
  packaged task whose shared state it reads.
\<close>

type_synonym 'v heap = "'v packaged_task list"

type_synonym future = nat

text \<open>
  \<^verbatim>\<open>std::packaged_task::operator()\<close>: the stored callable runs; its value, or the
  exception it throws, goes into the shared state and the call returns normally. A second
  call on the same task throws \<^verbatim>\<open>std::future_error\<close>, which is a \<^verbatim>\<open>std::exception\<close>.
\<close>

definition outcome :: "'v callable \<Rightarrow> 'v shared_state" where
  "outcome f = (case f of Returns v \<Rightarrow> Has_value v | Throws e \<Rightarrow> Has_exception e)"

definition call_packaged :: "'v packaged_task \<Rightarrow> exn option \<times> 'v packaged_task" where
  "call_packaged p =
     (case state p of
        Not_ready \<Rightarrow> (None, p\<lparr>state := outcome (stored p)\<rparr>)
      | _ \<Rightarrow> (Some (Std_exception ''std::future_error''), p))"

text \<open>
  \<^verbatim>\<open>std::packaged_task::~packaged_task\<close> abandons the shared state: a state that is not
  ready becomes ready with a broken promise; a ready state stays as it is.
\<close>

definition abandon :: "'v packaged_task \<Rightarrow> 'v packaged_task" where
  "abandon p = (case state p of Not_ready \<Rightarrow> p\<lparr>state := Broken_promise\<rparr> | _ \<Rightarrow> p)"

text \<open>
  \<^verbatim>\<open>function_t\<close> is \<^verbatim>\<open>std::function<void()>\<close>. The only values of that type in the
  header are the default-constructed (empty) function, \<open>None\<close>, and the lambda
  \<^verbatim>\<open>[task]() {(*task)();}\<close> of \<^verbatim>\<open>enqueue\<close>, \<open>Some task\<close>, which captures the pointer.
\<close>

type_synonym function_t = "nat option"

text \<open>
  Calling a \<^verbatim>\<open>function_t\<close>: the empty one throws \<^verbatim>\<open>std::bad_function_call\<close>; the lambda
  calls the packaged task it points to. The result is the exception that leaves the call,
  if any, and the heap afterwards. (A \<^verbatim>\<open>shared_ptr\<close> never dangles; the heap is left as
  it is for an index outside it.)
\<close>

definition invoke :: "function_t \<Rightarrow> 'v heap \<Rightarrow> exn option \<times> 'v heap" where
  "invoke f h =
     (case f of
        None \<Rightarrow> (Some (Std_exception ''std::bad_function_call''), h)
      | Some task \<Rightarrow>
          (if task < length h
           then (case call_packaged (h ! task) of (e, p) \<Rightarrow> (e, h[task := p]))
           else (None, h)))"

text \<open>
  Destroying a \<^verbatim>\<open>function_t\<close>. In this header a \<^verbatim>\<open>function_t\<close> is never copied: it is
  built in place in the queue by \<^verbatim>\<open>emplace\<close> and moved out of it by \<^verbatim>\<open>dequeue\<close>, and
  the pointer that \<^verbatim>\<open>enqueue\<close> keeps in its local variable is gone when \<^verbatim>\<open>enqueue\<close>
  returns. So the lambda holds the only pointer to its packaged task, and destroying the
  lambda destroys the packaged task. Destroying the empty function does nothing.
\<close>

definition destroy_function :: "function_t \<Rightarrow> 'v heap \<Rightarrow> 'v heap" where
  "destroy_function f h =
     (case f of
        None \<Rightarrow> h
      | Some task \<Rightarrow> (if task < length h then h[task := abandon (h ! task)] else h))"

subsection \<open>The condition variable\<close>

text \<open>
  A \<^verbatim>\<open>std::condition_variable\<close> is the list of the threads blocked in its \<^verbatim>\<open>wait\<close>.
  \<^verbatim>\<open>notify_all\<close> unblocks all of them. \<^verbatim>\<open>notify_one\<close> unblocks one of them when there
  is one; which one is the implementation's choice, given here by the number \<open>c\<close>.
\<close>

type_synonym tid = nat

definition notify_all :: "tid list \<Rightarrow> tid list" where
  "notify_all cv = []"

definition notify_one :: "nat \<Rightarrow> tid list \<Rightarrow> tid list" where
  "notify_one c cv = (if cv = [] then [] else remove1 (cv ! (c mod length cv)) cv)"

subsection \<open>\<^verbatim>\<open>task_queue\<close>\<close>

text \<open>
  Modelled from the spec: \<^verbatim>\<open>atomic::type<bool>\<close>, \<^verbatim>\<open>atomic::load\<close> and \<^verbatim>\<open>atomic::store\<close>
  come from a header that is not among the sources. The spec describes such a flag as a
  boolean with cross-thread visibility, so the type is \<open>bool\<close>, a load reads it and a
  store writes it.
\<close>

definition load :: "bool \<Rightarrow> bool" where
  "load b = b"

definition store :: "bool \<Rightarrow> bool \<Rightarrow> bool" where
  "store b v = v"

record task_queue =
  valid_m :: bool
  valid :: bool
  queue_m :: "function_t list"
  condition_m :: "tid list"

text \<open>The constructor: \<^verbatim>\<open>valid_(true)\<close>, the member initialiser \<^verbatim>\<open>valid { true }\<close>.\<close>

definition task_queue_ctor :: task_queue where
  "task_queue_ctor = \<lparr>valid_m = True, valid = True, queue_m = [], condition_m = []\<rparr>"

definition invalidate :: "task_queue \<Rightarrow> task_queue" where
  "invalidate q = q\<lparr>valid_m := False, condition_m := notify_all (condition_m q)\<rparr>"

text \<open>
  \<^verbatim>\<open>dequeue\<close>, from the point where thread \<open>t\<close> holds the lock and evaluates the wait
  predicate \<^verbatim>\<open>!queue_.empty() || !valid_\<close>. When the predicate is false the thread blocks:
  it joins the wait set and nothing has been returned. Otherwise the body runs to its
  \<^verbatim>\<open>return\<close>. The out parameter is passed in and handed back. The move assignment
  \<^verbatim>\<open>out = std::move(queue_.front())\<close> destroys what \<^verbatim>\<open>out\<close> held before; the element that
  \<^verbatim>\<open>pop\<close> destroys has been moved from and is empty.
\<close>

datatype dequeue_result = Blocked | Returned bool

definition wait_pred :: "task_queue \<Rightarrow> bool" where
  "wait_pred q = (queue_m q \<noteq> [] \<or> \<not> valid_m q)"

definition dequeue ::
  "tid \<Rightarrow> function_t \<Rightarrow> task_queue \<times> 'v heap \<Rightarrow> dequeue_result \<times> function_t \<times> task_queue \<times> 'v heap"
where
  "dequeue t out qh =
     (case qh of (q, h) \<Rightarrow>
        (if \<not> wait_pred q then (Blocked, out, q\<lparr>condition_m := condition_m q @ [t]\<rparr>, h)
         else if \<not> valid_m q then (Returned False, out, q, h)
         else (Returned True, hd (queue_m q), q\<lparr>queue_m := tl (queue_m q)\<rparr>,
               destroy_function out h)))"

text \<open>
  \<^verbatim>\<open>enqueue\<close>: a packaged task around the bound callable is allocated, its future taken,
  the lambda pushed at the back of the queue and one waiter notified.
\<close>

definition enqueue :: "'v callable \<Rightarrow> nat \<Rightarrow> task_queue \<times> 'v heap \<Rightarrow> future \<times> task_queue \<times> 'v heap" where
  "enqueue f c qh =
     (case qh of (q, h) \<Rightarrow>
        (let task = length h;
             h' = h @ [\<lparr>stored = f, state = Not_ready\<rparr>];
             res = task
         in (res,
             q\<lparr>queue_m := queue_m q @ [Some task],
               condition_m := notify_one c (condition_m q)\<rparr>,
             h')))"

definition empty :: "task_queue \<Rightarrow> bool" where
  "empty q = (queue_m q = [])"

text \<open>
  The loop of \<^verbatim>\<open>clear\<close>: \<^verbatim>\<open>while (!queue_.empty()) queue_.pop();\<close> Each \<^verbatim>\<open>pop\<close>
  destroys the element at the front.
\<close>

fun clear_loop :: "function_t list \<Rightarrow> 'v heap \<Rightarrow> function_t list \<times> 'v heap" where
  "clear_loop [] h = ([], h)"
| "clear_loop (x # xs) h = clear_loop xs (destroy_function x h)"

definition clear :: "task_queue \<times> 'v heap \<Rightarrow> task_queue \<times> 'v heap" where
  "clear qh =
     (case qh of (q, h) \<Rightarrow>
        (case clear_loop (queue_m q) h of
           (xs, h') \<Rightarrow> (q\<lparr>queue_m := xs, condition_m := notify_all (condition_m q)\<rparr>, h')))"

definition is_valid :: "task_queue \<Rightarrow> bool" where
  "is_valid q = valid_m q"

text \<open>
  The destructor \<^verbatim>\<open>~task_queue\<close>: the body calls \<^verbatim>\<open>invalidate\<close>, then the members are
  destroyed, and with \<^verbatim>\<open>queue_\<close> every element still in it.
\<close>

definition task_queue_dtor :: "task_queue \<times> 'v heap \<Rightarrow> task_queue \<times> 'v heap" where
  "task_queue_dtor qh =
     (case qh of (q, h) \<Rightarrow>
        (case clear_loop (queue_m (invalidate q)) h of
           (xs, h') \<Rightarrow> ((invalidate q)\<lparr>queue_m := xs\<rparr>, h')))"

text \<open>
  The public operations of the queue as data, with what each returns, so that properties
  can be stated for every operation and for every sequence of operations. The out
  parameter of a \<^verbatim>\<open>dequeue\<close> is a \<^verbatim>\<open>function_t\<close> of the caller's.
\<close>

datatype 'v queue_op =
    Enqueue "'v callable" nat
  | Dequeue tid function_t
  | Clear
  | Invalidate
  | Empty
  | Is_valid

datatype op_result =
    Future future
  | Dequeued dequeue_result function_t
  | Bool bool
  | Void

fun run_op :: "'v queue_op \<Rightarrow> task_queue \<times> 'v heap \<Rightarrow> op_result \<times> task_queue \<times> 'v heap" where
  "run_op (Enqueue f c) (q, h) = (case enqueue f c (q, h) of (res, q', h') \<Rightarrow> (Future res, q', h'))"
| "run_op (Dequeue t out) (q, h) =
     (case dequeue t out (q, h) of (r, out', q', h') \<Rightarrow> (Dequeued r out', q', h'))"
| "run_op Clear (q, h) = (Void, clear (q, h))"
| "run_op Invalidate (q, h) = (Void, invalidate q, h)"
| "run_op Empty (q, h) = (Bool (empty q), q, h)"
| "run_op Is_valid (q, h) = (Bool (is_valid q), q, h)"

fun run_ops :: "'v queue_op list \<Rightarrow> task_queue \<times> 'v heap \<Rightarrow> task_queue \<times> 'v heap" where
  "run_ops [] qh = qh"
| "run_ops (x # xs) qh = run_ops xs (snd (run_op x qh))"

text \<open>The results of a sequence of operations, in order.\<close>

fun results :: "'v queue_op list \<Rightarrow> task_queue \<times> 'v heap \<Rightarrow> op_result list" where
  "results [] qh = []"
| "results (x # xs) qh = fst (run_op x qh) # results xs (snd (run_op x qh))"

subsection \<open>\<^verbatim>\<open>task_worker\<close>\<close>

text \<open>
  The places where the thread of a worker can be:
  \<^item> \<open>Not_started\<close>: \<^verbatim>\<open>start\<close> has not been called, \<^verbatim>\<open>worker_\<close> is not joinable;
  \<^item> \<open>Loop_head\<close>: about to evaluate \<^verbatim>\<open>!atomic::load(&stop_)\<close>;
  \<^item> \<open>In_dequeue\<close>: inside \<^verbatim>\<open>queue_.dequeue(task)\<close>, either about to evaluate the wait
    predicate under the lock or, when the thread is in the wait set, blocked;
  \<^item> \<open>Have_task\<close>: \<^verbatim>\<open>dequeue\<close> has returned true, about to enter the \<^verbatim>\<open>try\<close> block;
  \<^item> \<open>Finished\<close>: the loop has been left and the thread function has returned, which
    destroys its local variable \<^verbatim>\<open>task\<close>;
  \<^item> \<open>Joined\<close>: the thread has been joined.
\<close>

datatype thread = Not_started | Loop_head | In_dequeue | Have_task | Finished | Joined

record task_worker =
  stop_m :: bool
  worker_m :: thread
  task :: function_t

definition task_worker_ctor :: task_worker where
  "task_worker_ctor = \<lparr>stop_m = False, worker_m = Not_started, task = None\<rparr>"

definition start :: "task_worker \<Rightarrow> task_worker" where
  "start w = w\<lparr>worker_m := Loop_head\<rparr>"

definition joinable :: "task_worker \<Rightarrow> bool" where
  "joinable w = (worker_m w \<noteq> Not_started \<and> worker_m w \<noteq> Joined)"

subsection \<open>\<^verbatim>\<open>task_pool\<close> and the running system\<close>

text \<open>
  Where the owner of the pool is: the pool is alive, or its destructor is at the
  \<^verbatim>\<open>delete\<close> of worker \<open>i\<close> (\<open>Deleting i\<close>: about to store \<^verbatim>\<open>stop_\<close>; \<open>Joining i\<close>: in the
  \<^verbatim>\<open>join\<close>), or the pool is gone. \<open>Aborted\<close>: an exception has left a thread function and
  \<^verbatim>\<open>std::terminate\<close> has ended the process.
\<close>

datatype pool_pc = Alive | Deleting nat | Joining nat | Destroyed | Aborted

text \<open>
  Modelled from the spec: \<^verbatim>\<open>LOG_ERROR\<close> comes from \<^verbatim>\<open>logger.h\<close>, which is not among the
  sources. The spec describes it as an external diagnostic sink that receives a failure
  description string; the sink is the list of the messages it has received.
\<close>

definition LOG_ERROR :: "string \<Rightarrow> string list \<Rightarrow> string list" where
  "LOG_ERROR msg sink = sink @ [msg]"

record 'v task_pool =
  pool_queue_m :: task_queue
  workers_m :: "task_worker list"
  heap :: "'v heap"
  log :: "string list"
  stderr :: "string list"
  owner :: pool_pc

text \<open>The loop of the constructor: each worker is created on the pool's queue and started.\<close>

fun ctor_loop :: "nat \<Rightarrow> task_worker list \<Rightarrow> task_worker list" where
  "ctor_loop 0 ws = ws"
| "ctor_loop (Suc n) ws = ctor_loop n (ws @ [start task_worker_ctor])"

definition task_pool_ctor :: "nat \<Rightarrow> 'v task_pool" where
  "task_pool_ctor num_workers =
     \<lparr>pool_queue_m = task_queue_ctor, workers_m = ctor_loop num_workers [],
      heap = [], log = [], stderr = [], owner = Alive\<rparr>"

text \<open>
  One step of the thread of worker \<open>i\<close>, following the lambda of \<^verbatim>\<open>task_worker::start\<close>.
  A thread that cannot move (blocked in the wait set, not started, finished) leaves the
  system as it is.
\<close>

definition set_worker :: "nat \<Rightarrow> task_worker \<Rightarrow> 'v task_pool \<Rightarrow> 'v task_pool" where
  "set_worker i w s = s\<lparr>workers_m := (workers_m s)[i := w]\<rparr>"

definition thread_step :: "nat \<Rightarrow> 'v task_pool \<Rightarrow> 'v task_pool" where
  "thread_step i s =
     (if length (workers_m s) \<le> i then s
      else
        (let w = workers_m s ! i in
         case worker_m w of
           Loop_head \<Rightarrow>
             (if \<not> load (stop_m w) then set_worker i (w\<lparr>worker_m := In_dequeue\<rparr>) s
              else set_worker i (w\<lparr>worker_m := Finished, task := None\<rparr>)
                     (s\<lparr>heap := destroy_function (task w) (heap s)\<rparr>))
         | In_dequeue \<Rightarrow>
             (if i \<in> set (condition_m (pool_queue_m s)) then s
              else
                (case dequeue i (task w) (pool_queue_m s, heap s) of
                   (Blocked, out, q, h) \<Rightarrow> s\<lparr>pool_queue_m := q, heap := h\<rparr>
                 | (Returned True, out, q, h) \<Rightarrow>
                     set_worker i (w\<lparr>task := out, worker_m := Have_task\<rparr>)
                       (s\<lparr>pool_queue_m := q, heap := h\<rparr>)
                 | (Returned False, out, q, h) \<Rightarrow>
                     set_worker i (w\<lparr>task := out, worker_m := Loop_head\<rparr>)
                       (s\<lparr>pool_queue_m := q, heap := h\<rparr>)))
         | Have_task \<Rightarrow>
             (case invoke (task w) (heap s) of
                (None, h) \<Rightarrow> set_worker i (w\<lparr>worker_m := Loop_head\<rparr>) (s\<lparr>heap := h\<rparr>)
              | (Some (Std_exception what), h) \<Rightarrow>
                  set_worker i (w\<lparr>worker_m := Loop_head\<rparr>)
                    (s\<lparr>heap := h,
                       log := LOG_ERROR (''Could not execute task: '' @ what) (log s),
                       stderr := stderr s @ [''Exception: '' @ what @ [CHR 0x0A]]\<rparr>)
              | (Some Other_exception, h) \<Rightarrow> s\<lparr>heap := h, owner := Aborted\<rparr>)
         | _ \<Rightarrow> s))"

text \<open>
  \<^verbatim>\<open>task_worker::stop\<close> is two steps of the calling thread: the store to \<^verbatim>\<open>stop_\<close>, then
  the \<^verbatim>\<open>join\<close>, which returns only when the thread function has returned.
\<close>

definition stop_store :: "task_worker \<Rightarrow> task_worker" where
  "stop_store w = w\<lparr>stop_m := store (stop_m w) True\<rparr>"

text \<open>
  One step of the destructor \<^verbatim>\<open>~task_pool\<close>: \<^verbatim>\<open>queue_.invalidate()\<close>; then for each worker
  \<^verbatim>\<open>delete worker\<close>, which runs \<^verbatim>\<open>~task_worker\<close>, that is \<^verbatim>\<open>stop()\<close>; and after the loop
  the members are destroyed, \<^verbatim>\<open>queue_\<close> by \<^verbatim>\<open>~task_queue\<close>.
\<close>

definition destroy_step :: "'v task_pool \<Rightarrow> 'v task_pool" where
  "destroy_step s =
     (case owner s of
        Alive \<Rightarrow> s\<lparr>pool_queue_m := invalidate (pool_queue_m s), owner := Deleting 0\<rparr>
      | Deleting i \<Rightarrow>
          (if i < length (workers_m s)
           then set_worker i (stop_store (workers_m s ! i)) (s\<lparr>owner := Joining i\<rparr>)
           else (case task_queue_dtor (pool_queue_m s, heap s) of
                   (q, h) \<Rightarrow> s\<lparr>pool_queue_m := q, heap := h, owner := Destroyed\<rparr>))
      | Joining i \<Rightarrow>
          (let w = workers_m s ! i in
           if \<not> joinable w then s\<lparr>owner := Deleting (Suc i)\<rparr>
           else if worker_m w = Finished
             then set_worker i (w\<lparr>worker_m := Joined\<rparr>) (s\<lparr>owner := Deleting (Suc i)\<rparr>)
           else s)
      | _ \<Rightarrow> s)"

text \<open>
  \<^verbatim>\<open>task_pool::submit\<close> delegates to \<^verbatim>\<open>enqueue\<close> and returns its future.
\<close>

definition submit :: "'v callable \<Rightarrow> nat \<Rightarrow> 'v task_pool \<Rightarrow> future \<times> 'v task_pool" where
  "submit f c s =
     (case enqueue f c (pool_queue_m s, heap s) of
        (res, q, h) \<Rightarrow> (res, s\<lparr>pool_queue_m := q, heap := h\<rparr>))"

text \<open>
  The system runs by interleaving: a producer submits; some thread that holds a reference
  to the queue calls \<^verbatim>\<open>clear\<close> or \<^verbatim>\<open>invalidate\<close>; worker \<open>i\<close> takes its next step; worker
  \<open>i\<close> wakes up spuriously from \<^verbatim>\<open>condition_.wait\<close>; the owner takes the next step of the
  destructor. Nothing moves once the pool is destroyed or the process has been aborted.
\<close>

datatype 'v action =
    Submit "'v callable" nat
  | Call_clear
  | Call_invalidate
  | Work nat
  | Wake nat
  | Destroy

definition step :: "'v action \<Rightarrow> 'v task_pool \<Rightarrow> 'v task_pool" where
  "step a s =
     (if owner s = Destroyed \<or> owner s = Aborted then s
      else
        (case a of
           Submit f c \<Rightarrow> snd (submit f c s)
         | Call_clear \<Rightarrow>
             (case clear (pool_queue_m s, heap s) of (q, h) \<Rightarrow> s\<lparr>pool_queue_m := q, heap := h\<rparr>)
         | Call_invalidate \<Rightarrow> s\<lparr>pool_queue_m := invalidate (pool_queue_m s)\<rparr>
         | Work i \<Rightarrow> thread_step i s
         | Wake i \<Rightarrow>
             s\<lparr>pool_queue_m :=
                 (pool_queue_m s)\<lparr>condition_m := removeAll i (condition_m (pool_queue_m s))\<rparr>\<rparr>
         | Destroy \<Rightarrow> destroy_step s))"

fun exec :: "'v action list \<Rightarrow> 'v task_pool \<Rightarrow> 'v task_pool" where
  "exec [] s = s"
| "exec (a # as) s = exec as (step a s)"

subsection \<open>Sequences of queue operations\<close>

text \<open>
  A batch of \<^verbatim>\<open>enqueue\<close> calls and a batch of \<^verbatim>\<open>dequeue\<close> calls, and the units that
  the successful \<^verbatim>\<open>dequeue\<close> calls of a run have handed out, in the order of the calls.
\<close>

definition enqueue_ops :: "('v callable \<times> nat) list \<Rightarrow> 'v queue_op list" where
  "enqueue_ops fcs = map (\<lambda>(f, c). Enqueue f c) fcs"

definition dequeue_ops :: "(tid \<times> function_t) list \<Rightarrow> 'v queue_op list" where
  "dequeue_ops touts = map (\<lambda>(t, out). Dequeue t out) touts"

fun taken :: "op_result list \<Rightarrow> function_t list" where
  "taken [] = []"
| "taken (Dequeued (Returned True) f # rs) = f # taken rs"
| "taken (r # rs) = taken rs"

subsection \<open>Invariants of the running system\<close>

text \<open>
  A packaged task has run when its shared state holds what its callable produced. A unit
  is pending when it is the lambda of a packaged task whose shared state is not ready. A
  function is spent when destroying it changes nothing: it is empty, or its packaged task
  is ready. Worker \<open>i\<close> holds a unit when its \<^verbatim>\<open>dequeue\<close> has handed the unit over and the
  call \<^verbatim>\<open>task()\<close> is still to come.
\<close>

definition has_run :: "'v packaged_task \<Rightarrow> bool" where
  "has_run p = (case state p of Has_value v \<Rightarrow> True | Has_exception e \<Rightarrow> True | _ \<Rightarrow> False)"

definition pending :: "'v task_pool \<Rightarrow> function_t \<Rightarrow> bool" where
  "pending s f = (\<exists>u. f = Some u \<and> u < length (heap s) \<and> state (heap s ! u) = Not_ready)"

definition spent :: "'v heap \<Rightarrow> function_t \<Rightarrow> bool" where
  "spent h f = (case f of None \<Rightarrow> True | Some u \<Rightarrow> u < length h \<and> state (h ! u) \<noteq> Not_ready)"

definition holds :: "'v task_pool \<Rightarrow> nat \<Rightarrow> function_t \<Rightarrow> bool" where
  "holds s i f = (i < length (workers_m s) \<and> worker_m (workers_m s ! i) = Have_task
                  \<and> task (workers_m s ! i) = f)"

text \<open>
  The state is consistent when no unit is in the queue twice, every queued unit and every
  held unit is pending, no held unit is still queued, no unit is held by two workers, the
  variable \<^verbatim>\<open>task\<close> of a worker that holds nothing is spent, nothing has been written
  to the sinks and the process has not been aborted.
\<close>

definition consistent :: "'v task_pool \<Rightarrow> bool" where
  "consistent s = (distinct (queue_m (pool_queue_m s))
           \<and> (\<forall>f \<in> set (queue_m (pool_queue_m s)). pending s f)
           \<and> (\<forall>i f. holds s i f \<longrightarrow> pending s f \<and> f \<notin> set (queue_m (pool_queue_m s)))
           \<and> (\<forall>i j f. holds s i f \<and> holds s j f \<longrightarrow> i = j)
           \<and> (\<forall>i < length (workers_m s). worker_m (workers_m s ! i) \<noteq> Have_task \<longrightarrow>
                 spent (heap s) (task (workers_m s ! i)))
           \<and> log s = [] \<and> stderr s = [] \<and> owner s \<noteq> Aborted)"

text \<open>
  Unit \<open>u\<close> will never run: it has not run, no worker holds it, and it is in the queue
  only if the queue is invalid.
\<close>

definition never_run :: "nat \<Rightarrow> 'v task_pool \<Rightarrow> bool" where
  "never_run u s =
     (u < length (heap s) \<and> \<not> has_run (heap s ! u)
      \<and> (\<forall>i. \<not> holds s i (Some u))
      \<and> (Some u \<in> set (queue_m (pool_queue_m s)) \<longrightarrow> \<not> valid_m (pool_queue_m s)))"

text \<open>
  A worker's \<^verbatim>\<open>stop_\<close> is set only once the queue has been invalidated: either the
  queue is invalid, or the destructor has not begun and no worker has its flag set.
\<close>

definition stop_after_invalidate :: "'v task_pool \<Rightarrow> bool" where
  "stop_after_invalidate s =
     (\<not> valid_m (pool_queue_m s)
      \<or> ((owner s = Alive \<or> owner s = Aborted) \<and> \<not> list_ex stop_m (workers_m s)))"

text \<open>
  With one worker \<open>w\<close>: the units that have run are exactly the first \<open>k\<close> ever
  enqueued, the worker holds unit \<open>k\<close> if it holds one, and the queue is the rest, in the
  order of enqueueing. Once the pool is destroyed only the first part is left to say.
\<close>

definition run_prefix :: "'v task_pool \<Rightarrow> nat \<Rightarrow> bool" where
  "run_prefix s k = (\<forall>u < length (heap s). has_run (heap s ! u) = (u < k))"

definition ordered_at :: "'v task_pool \<Rightarrow> task_worker \<Rightarrow> nat \<Rightarrow> bool" where
  "ordered_at s w k =
     (workers_m s = [w] \<and> k \<le> length (heap s) \<and> run_prefix s k
      \<and> (if worker_m w = Have_task
          then task w = Some k \<and> k < length (heap s)
               \<and> queue_m (pool_queue_m s) = map Some [Suc k ..< length (heap s)]
          else queue_m (pool_queue_m s) = map Some [k ..< length (heap s)]))"

definition in_order :: "'v task_pool \<Rightarrow> bool" where
  "in_order s = ((\<exists>w k. ordered_at s w k) \<or> (owner s = Destroyed \<and> (\<exists>k. run_prefix s k)))"

text \<open>
  The heap only grows, the stored callables stay, and a shared state that is ready is
  never written again.
\<close>

definition heap_grows :: "'v heap \<Rightarrow> 'v heap \<Rightarrow> bool" where
  "heap_grows h h' =
     (length h \<le> length h'
      \<and> (\<forall>u < length h. stored (h' ! u) = stored (h ! u))
      \<and> (\<forall>u < length h. state (h ! u) \<noteq> Not_ready \<longrightarrow> h' ! u = h ! u))"

text \<open>
  A shared state is right when it is not ready, or holds a broken promise, or holds what
  the stored callable produces.
\<close>

definition right_state :: "'v packaged_task \<Rightarrow> bool" where
  "right_state p =
     (state p = Not_ready \<or> state p = Broken_promise \<or> state p = outcome (stored p))"

text \<open>
  With one worker \<open>w\<close>, whatever is done to the queue: every unit that has run is among
  the first \<open>k\<close>, the queued units are in increasing order and none of them is below
  \<open>lo\<close>, and a unit that the worker holds lies from \<open>k\<close> up and below \<open>lo\<close>.
\<close>

definition later_at :: "'v task_pool \<Rightarrow> task_worker \<Rightarrow> nat \<Rightarrow> nat \<Rightarrow> nat list \<Rightarrow> bool" where
  "later_at s w k lo us =
     (workers_m s = [w] \<and> k \<le> lo \<and> lo \<le> length (heap s)
      \<and> (\<forall>u < length (heap s). has_run (heap s ! u) \<longrightarrow> u < k)
      \<and> queue_m (pool_queue_m s) = map Some us \<and> sorted_wrt (<) us
      \<and> (\<forall>u \<in> set us. lo \<le> u \<and> u < length (heap s))
      \<and> (worker_m w = Have_task \<longrightarrow> (\<exists>j. task w = Some j \<and> k \<le> j \<and> j < lo)))"

definition later_only :: "'v task_pool \<Rightarrow> bool" where
  "later_only s = (owner s = Destroyed \<or> (\<exists>w k lo us. later_at s w k lo us))"

text \<open>
  Every packaged task whose shared state is not ready is still owned by somebody who will
  destroy it: it is in the queue, or a worker holds it.
\<close>

definition owned :: "'v task_pool \<Rightarrow> bool" where
  "owned s =
     (\<forall>u < length (heap s). state (heap s ! u) = Not_ready \<longrightarrow>
        Some u \<in> set (queue_m (pool_queue_m s)) \<or> (\<exists>i. holds s i (Some u)))"

text \<open>
  The progress of the destructor through the workers. A worker is live when its \<^verbatim>\<open>stop_\<close>
  is not set and its thread is in the loop; it is stopping when its \<^verbatim>\<open>stop_\<close> is set and
  its thread has not been joined; it is stopped when its \<^verbatim>\<open>stop_\<close> is set and its thread
  has been joined.
\<close>

definition stopped :: "task_worker \<Rightarrow> bool" where
  "stopped w = (stop_m w \<and> worker_m w = Joined)"

definition live :: "task_worker \<Rightarrow> bool" where
  "live w = (\<not> stop_m w \<and> worker_m w \<in> {Loop_head, In_dequeue, Have_task})"

definition stopping :: "task_worker \<Rightarrow> bool" where
  "stopping w = (stop_m w \<and> worker_m w \<in> {Loop_head, In_dequeue, Have_task, Finished})"

text \<open>
  The destructor goes through the workers in order: nobody waits on an invalid queue;
  before the destructor every worker is live; when it is about to delete worker \<open>i\<close> the
  queue is invalid, the workers before \<open>i\<close> are stopped and the others live; while it is
  in \<^verbatim>\<open>stop\<close> of worker \<open>i\<close> that worker is stopping; and at the end every worker is
  stopped.
\<close>

definition teardown_order :: "'v task_pool \<Rightarrow> bool" where
  "teardown_order s =
     ((\<not> valid_m (pool_queue_m s) \<longrightarrow> condition_m (pool_queue_m s) = [])
      \<and> (case owner s of
           Alive \<Rightarrow> \<forall>k < length (workers_m s). live (workers_m s ! k)
         | Deleting i \<Rightarrow>
             i \<le> length (workers_m s) \<and> \<not> valid_m (pool_queue_m s)
             \<and> (\<forall>k < length (workers_m s).
                   if k < i then stopped (workers_m s ! k) else live (workers_m s ! k))
         | Joining i \<Rightarrow>
             i < length (workers_m s) \<and> \<not> valid_m (pool_queue_m s)
             \<and> (\<forall>k < length (workers_m s).
                   if k < i then stopped (workers_m s ! k)
                   else if k = i then stopping (workers_m s ! k) else live (workers_m s ! k))
         | Destroyed \<Rightarrow> \<forall>k < length (workers_m s). stopped (workers_m s ! k)
         | Aborted \<Rightarrow> True))"

section \<open>Properties\<close>

subsection \<open>Facts about the queue operations\<close>

lemma abandon_simps [simp]:
  "has_run (abandon p) = has_run p"
  "stored (abandon p) = stored p"
  "state (abandon p) \<noteq> Not_ready"
  "abandon (abandon p) = abandon p"
  by (simp_all add: abandon_def has_run_def split: shared_state.splits)

lemma outcome_ready [simp]: "outcome f \<noteq> Not_ready" "outcome f \<noteq> Broken_promise"
  by (simp_all add: outcome_def split: callable.splits)

lemma has_run_outcome [simp]: "has_run (p\<lparr>state := outcome f\<rparr>)"
  by (simp add: has_run_def outcome_def split: callable.splits)

lemma abandon_ready: "state p \<noteq> Not_ready \<Longrightarrow> abandon p = p"
  by (simp add: abandon_def split: shared_state.splits)

lemma abandon_not_ready: "state p = Not_ready \<Longrightarrow> state (abandon p) = Broken_promise"
  by (simp add: abandon_def)

lemma length_destroy_function [simp]: "length (destroy_function f h) = length h"
  by (simp add: destroy_function_def split: option.splits)

lemma nth_destroy_function:
  "u < length h \<Longrightarrow>
   destroy_function f h ! u = (if f = Some u then abandon (h ! u) else h ! u)"
  by (auto simp: destroy_function_def nth_list_update split: option.splits)

lemma destroy_function_spent: "spent h f \<Longrightarrow> destroy_function f h = h"
  by (auto simp: spent_def destroy_function_def abandon_ready split: option.splits)

lemma destroy_function_None [simp]: "destroy_function None h = h"
  by (simp add: destroy_function_def)

lemma clear_loop_fst [simp]: "fst (clear_loop xs h) = []"
  by (induction xs arbitrary: h) simp_all

lemma clear_loop_length [simp]: "length (snd (clear_loop xs h)) = length h"
  by (induction xs arbitrary: h) simp_all

lemma nth_clear_loop:
  "u < length h \<Longrightarrow>
   snd (clear_loop xs h) ! u = (if Some u \<in> set xs then abandon (h ! u) else h ! u)"
  by (induction xs arbitrary: h) (auto simp: nth_destroy_function)

lemma clear_eq:
  "clear (q, h) = (q\<lparr>queue_m := [], condition_m := []\<rparr>, snd (clear_loop (queue_m q) h))"
  by (cases "clear_loop (queue_m q) h")
    (use clear_loop_fst [of "queue_m q" h] in \<open>simp add: clear_def notify_all_def\<close>)

lemma task_queue_dtor_eq:
  "task_queue_dtor (q, h)
     = (q\<lparr>valid_m := False, condition_m := [], queue_m := []\<rparr>, snd (clear_loop (queue_m q) h))"
  by (cases "clear_loop (queue_m q) h")
    (use clear_loop_fst [of "queue_m q" h] in
      \<open>simp add: task_queue_dtor_def invalidate_def notify_all_def\<close>)

lemma ctor_loop_eq: "ctor_loop n ws = ws @ replicate n (start task_worker_ctor)"
  by (induction n arbitrary: ws) (simp_all add: replicate_app_Cons_same)

lemma run_op_heap_mono: "length h \<le> length (snd (snd (run_op x (q, h))))"
  by (cases x) (simp_all add: enqueue_def Let_def dequeue_def clear_eq)

lemma run_ops_heap_mono: "length h \<le> length (snd (run_ops ops (q, h)))"
proof (induction ops arbitrary: q h)
  case Nil
  then show ?case by simp
next
  case (Cons x xs)
  obtain r q' h' where r: "run_op x (q, h) = (r, q', h')"
    by (cases "run_op x (q, h)")
  have "length h \<le> length h'"
    using run_op_heap_mono [of h x q] r by simp
  then show ?case
    using Cons.IH [of h' q'] r by simp
qed

lemma fifo_conservation:
  "Clear \<notin> set ops \<Longrightarrow>
   taken (results ops (q, h)) @ queue_m (fst (run_ops ops (q, h)))
     = queue_m q @ map Some [length h ..< length (snd (run_ops ops (q, h)))]"
proof (induction ops arbitrary: q h)
  case Nil
  then show ?case by simp
next
  case (Cons x xs)
  then have nc: "Clear \<notin> set xs" and x: "x \<noteq> Clear"
    by auto
  note IH = Cons.IH [OF nc]
  show ?case
  proof (cases x)
    case (Enqueue f c)
    let ?q = "q\<lparr>queue_m := queue_m q @ [Some (length h)],
                  condition_m := notify_one c (condition_m q)\<rparr>"
    let ?h = "h @ [\<lparr>stored = f, state = Not_ready\<rparr>]"
    have r: "run_op x (q, h) = (Future (length h), ?q, ?h)"
      using Enqueue by (simp add: enqueue_def Let_def)
    have "Suc (length h) \<le> length (snd (run_ops xs (?q, ?h)))"
      using run_ops_heap_mono [of ?h xs ?q] by simp
    then have "[length h ..< length (snd (run_ops xs (?q, ?h)))]
               = length h # [Suc (length h) ..< length (snd (run_ops xs (?q, ?h)))]"
      by (simp add: upt_conv_Cons)
    then show ?thesis
      using IH [of ?q ?h] r by simp
  next
    case (Dequeue t out)
    show ?thesis
    proof (cases "wait_pred q")
      case False
      then have r: "run_op x (q, h) = (Dequeued Blocked out, q\<lparr>condition_m := condition_m q @ [t]\<rparr>, h)"
        using Dequeue by (simp add: dequeue_def)
      show ?thesis
        using IH [of "q\<lparr>condition_m := condition_m q @ [t]\<rparr>" h] r by simp
    next
      case wp: True
      show ?thesis
      proof (cases "valid_m q")
        case False
        then have r: "run_op x (q, h) = (Dequeued (Returned False) out, q, h)"
          using Dequeue wp by (simp add: dequeue_def)
        show ?thesis using IH [of q h] r by simp
      next
        case True
        then obtain y ys where q: "queue_m q = y # ys"
          using wp by (cases "queue_m q") (simp_all add: wait_pred_def)
        have r: "run_op x (q, h)
                 = (Dequeued (Returned True) y, q\<lparr>queue_m := ys\<rparr>, destroy_function out h)"
          using Dequeue wp True q by (simp add: dequeue_def)
        show ?thesis using IH [of "q\<lparr>queue_m := ys\<rparr>" "destroy_function out h"] r q by simp
      qed
    qed
  next
    case Clear
    then show ?thesis using x by simp
  next
    case Invalidate
    then show ?thesis using IH [of "invalidate q" h] by (simp add: invalidate_def)
  next
    case Empty
    then show ?thesis using IH [of q h] by simp
  next
    case Is_valid
    then show ?thesis using IH [of q h] by simp
  qed
qed

lemma run_enqueue_ops:
  "valid_m (fst (run_ops (enqueue_ops fcs) (q, h))) = valid_m q
   \<and> queue_m (fst (run_ops (enqueue_ops fcs) (q, h)))
       = queue_m q @ map Some [length h ..< length h + length fcs]
   \<and> snd (run_ops (enqueue_ops fcs) (q, h))
       = h @ map (\<lambda>(f, c). \<lparr>stored = f, state = Not_ready\<rparr>) fcs"
proof (induction fcs arbitrary: q h)
  case Nil
  then show ?case by (simp add: enqueue_ops_def)
next
  case (Cons fc fcs)
  obtain f c where fc: "fc = (f, c)" by (cases fc)
  let ?q = "q\<lparr>queue_m := queue_m q @ [Some (length h)],
                condition_m := notify_one c (condition_m q)\<rparr>"
  let ?h = "h @ [\<lparr>stored = f, state = Not_ready\<rparr>]"
  have r: "run_ops (enqueue_ops (fc # fcs)) (q, h) = run_ops (enqueue_ops fcs) (?q, ?h)"
    using fc by (simp add: enqueue_ops_def enqueue_def Let_def)
  have e: "[length h ..< length h + length (fc # fcs)]
           = length h # [length ?h ..< length ?h + length fcs]"
    by (simp add: upt_conv_Cons del: upt_Suc)
  show ?case
    unfolding r e using Cons.IH [of ?q ?h] fc by (simp del: upt_Suc)
qed

lemma results_dequeue_ops:
  "valid_m q \<Longrightarrow> length touts \<le> length (queue_m q) \<Longrightarrow>
   results (dequeue_ops touts) (q, h)
     = map (Dequeued (Returned True)) (take (length touts) (queue_m q))"
proof (induction touts arbitrary: q h)
  case Nil
  then show ?case by (simp add: dequeue_ops_def)
next
  case (Cons tout touts)
  obtain t out where tout: "tout = (t, out)" by (cases tout)
  from Cons.prems obtain y ys where q: "queue_m q = y # ys"
    by (cases "queue_m q") simp_all
  have r: "run_op (Dequeue t out) (q, h)
           = (Dequeued (Returned True) y, q\<lparr>queue_m := ys\<rparr>, destroy_function out h)"
    using Cons.prems(1) q by (simp add: dequeue_def wait_pred_def)
  have "results (dequeue_ops touts) (q\<lparr>queue_m := ys\<rparr>, destroy_function out h)
          = map (Dequeued (Returned True)) (take (length touts) ys)"
    using Cons.IH [of "q\<lparr>queue_m := ys\<rparr>" "destroy_function out h"] Cons.prems q by simp
  then show ?case
    using r q tout by (simp add: dequeue_ops_def)
qed

lemma taken_Cons: "taken (r # rs) = taken [r] @ taken rs"
  by (cases "r # rs" rule: taken.cases) simp_all

lemma run_op_keeps_invalid:
  "\<not> valid_m q \<Longrightarrow> \<not> valid_m (fst (snd (run_op x (q, h)))) \<and> taken [fst (run_op x (q, h))] = []"
  by (cases x)
    (simp_all add: enqueue_def dequeue_def clear_eq invalidate_def Let_def wait_pred_def)

lemma results_invalid:
  "\<not> valid_m q \<Longrightarrow> taken (results ops (q, h)) = []"
proof (induction ops arbitrary: q h)
  case Nil
  then show ?case by simp
next
  case (Cons x xs)
  obtain r q' h' where r: "run_op x (q, h) = (r, q', h')"
    by (cases "run_op x (q, h)")
  have k: "\<not> valid_m q'" "taken [r] = []"
    using run_op_keeps_invalid [OF Cons.prems, of x h] r by simp_all
  then show ?case using Cons.IH [OF k(1), of h'] r taken_Cons [of r "results xs (q', h')"] by simp
qed

lemma run_ops_keeps_invalid:
  "\<not> valid_m q \<Longrightarrow> \<not> valid_m (fst (run_ops ops (q, h)))"
proof (induction ops arbitrary: q h)
  case Nil
  then show ?case by simp
next
  case (Cons x xs)
  obtain r q' h' where r: "run_op x (q, h) = (r, q', h')"
    by (cases "run_op x (q, h)")
  have "\<not> valid_m q'"
    using run_op_keeps_invalid [OF Cons.prems, of x h] r by simp
  then show ?case using Cons.IH r by simp
qed

subsection \<open>One step of a worker thread, place by place\<close>

lemma set_worker_fields [simp]:
  "pool_queue_m (set_worker i w s) = pool_queue_m s"
  "heap (set_worker i w s) = heap s"
  "log (set_worker i w s) = log s"
  "stderr (set_worker i w s) = stderr s"
  "owner (set_worker i w s) = owner s"
  "length (workers_m (set_worker i w s)) = length (workers_m s)"
  by (simp_all add: set_worker_def)

lemma thread_step_Loop_head:
  "i < length (workers_m s) \<Longrightarrow> worker_m (workers_m s ! i) = Loop_head \<Longrightarrow>
   thread_step i s =
     (if stop_m (workers_m s ! i)
      then set_worker i ((workers_m s ! i)\<lparr>worker_m := Finished, task := None\<rparr>)
             (s\<lparr>heap := destroy_function (task (workers_m s ! i)) (heap s)\<rparr>)
      else set_worker i ((workers_m s ! i)\<lparr>worker_m := In_dequeue\<rparr>) s)"
  by (simp add: thread_step_def Let_def load_def)

lemma thread_step_blocked:
  "i < length (workers_m s) \<Longrightarrow> worker_m (workers_m s ! i) = In_dequeue \<Longrightarrow>
   i \<in> set (condition_m (pool_queue_m s)) \<or> \<not> wait_pred (pool_queue_m s) \<Longrightarrow>
   \<exists>cv. thread_step i s = s\<lparr>pool_queue_m := (pool_queue_m s)\<lparr>condition_m := cv\<rparr>\<rparr>"
  apply (cases "i \<in> set (condition_m (pool_queue_m s))")
   apply (rule exI [of _ "condition_m (pool_queue_m s)"])
   apply (simp add: thread_step_def Let_def)
  apply (rule exI [of _ "condition_m (pool_queue_m s) @ [i]"])
  apply (simp add: thread_step_def Let_def dequeue_def)
  done

lemma thread_step_closed:
  "i < length (workers_m s) \<Longrightarrow> worker_m (workers_m s ! i) = In_dequeue \<Longrightarrow>
   i \<notin> set (condition_m (pool_queue_m s)) \<Longrightarrow> \<not> valid_m (pool_queue_m s) \<Longrightarrow>
   thread_step i s = set_worker i ((workers_m s ! i)\<lparr>worker_m := Loop_head\<rparr>) s"
  by (simp add: thread_step_def Let_def dequeue_def wait_pred_def)

lemma thread_step_take:
  "i < length (workers_m s) \<Longrightarrow> worker_m (workers_m s ! i) = In_dequeue \<Longrightarrow>
   i \<notin> set (condition_m (pool_queue_m s)) \<Longrightarrow> valid_m (pool_queue_m s) \<Longrightarrow>
   queue_m (pool_queue_m s) = x # xs \<Longrightarrow>
   thread_step i s =
     set_worker i ((workers_m s ! i)\<lparr>task := x, worker_m := Have_task\<rparr>)
       (s\<lparr>pool_queue_m := (pool_queue_m s)\<lparr>queue_m := xs\<rparr>,
          heap := destroy_function (task (workers_m s ! i)) (heap s)\<rparr>)"
  by (simp add: thread_step_def Let_def dequeue_def wait_pred_def)

lemma thread_step_run:
  "i < length (workers_m s) \<Longrightarrow> worker_m (workers_m s ! i) = Have_task \<Longrightarrow>
   task (workers_m s ! i) = Some u \<Longrightarrow> u < length (heap s) \<Longrightarrow>
   state (heap s ! u) = Not_ready \<Longrightarrow>
   thread_step i s =
     set_worker i ((workers_m s ! i)\<lparr>worker_m := Loop_head\<rparr>)
       (s\<lparr>heap := (heap s)[u := (heap s ! u)\<lparr>state :=
            outcome (stored (heap s ! u))\<rparr>]\<rparr>)"
  by (simp add: thread_step_def Let_def invoke_def call_packaged_def)

lemma thread_step_idle:
  "length (workers_m s) \<le> i \<or> worker_m (workers_m s ! i) \<in> {Not_started, Finished, Joined} \<Longrightarrow>
   thread_step i s = s"
  by (auto simp: thread_step_def Let_def)

lemma map_update_same: "(map f xs)[i := f (xs ! i)] = map f xs"
  by (metis list_update_id map_update)

lemma thread_step_frame:
  "valid_m (pool_queue_m (thread_step i s)) = valid_m (pool_queue_m s)
   \<and> valid (pool_queue_m (thread_step i s)) = valid (pool_queue_m s)
   \<and> map stop_m (workers_m (thread_step i s)) = map stop_m (workers_m s)
   \<and> (owner (thread_step i s) = owner s \<or> owner (thread_step i s) = Aborted)"
proof (cases "length (workers_m s) \<le> i")
  case True
  then show ?thesis by (simp add: thread_step_def)
next
  case False
  show ?thesis
  proof (cases "worker_m (workers_m s ! i)")
    case In_dequeue
    then show ?thesis
      using False
      by (simp add: thread_step_def Let_def set_worker_def dequeue_def map_update map_update_same)
  next
    case Have_task
    then show ?thesis
      using False
      by (simp add: thread_step_def Let_def set_worker_def map_update map_update_same
          split: prod.splits option.splits exn.splits)
  qed (use False in \<open>simp_all add: thread_step_def Let_def set_worker_def map_update map_update_same\<close>)
qed

lemma heap_grows_refl [simp]: "heap_grows h h"
  by (simp add: heap_grows_def)

lemma heap_grows_trans: "heap_grows h h' \<Longrightarrow> heap_grows h' h'' \<Longrightarrow> heap_grows h h''"
  unfolding heap_grows_def by (metis (no_types, lifting) le_trans less_le_trans)

lemma heap_grows_append [simp]: "heap_grows h (h @ xs)"
  by (simp add: heap_grows_def nth_append)

lemma heap_grows_destroy_function [simp]: "heap_grows h (destroy_function f h)"
  by (auto simp: heap_grows_def nth_destroy_function abandon_ready)

lemma heap_grows_clear_loop [simp]: "heap_grows h (snd (clear_loop xs h))"
  by (auto simp: heap_grows_def nth_clear_loop abandon_ready)

lemma heap_grows_invoke [simp]: "heap_grows h (snd (invoke f h))"
  by (auto simp: heap_grows_def invoke_def call_packaged_def nth_list_update
      split: option.splits prod.splits shared_state.splits callable.splits)

lemma heap_grows_thread_step: "heap_grows (heap s) (heap (thread_step i s))"
proof (cases "length (workers_m s) \<le> i")
  case True
  then show ?thesis by (simp add: thread_step_def)
next
  case False
  show ?thesis
  proof (cases "worker_m (workers_m s ! i)")
    case In_dequeue
    then show ?thesis
      using False by (simp add: thread_step_def Let_def dequeue_def)
  next
    case Have_task
    have "heap (thread_step i s) = snd (invoke (task (workers_m s ! i)) (heap s))"
      using False Have_task
      by (simp add: thread_step_def Let_def split: prod.splits option.splits exn.splits)
    then show ?thesis by simp
  qed (use False in \<open>simp_all add: thread_step_def Let_def\<close>)
qed

lemma heap_grows_destroy_step: "heap_grows (heap s) (heap (destroy_step s))"
  by (cases "owner s")
    (simp_all add: destroy_step_def task_queue_dtor_eq Let_def)

lemma heap_grows_step: "heap_grows (heap s) (heap (step a s))"
  by (cases a)
    (simp_all add: step_def submit_def enqueue_def Let_def clear_eq heap_grows_thread_step
      heap_grows_destroy_step)

lemma heap_grows_exec: "heap_grows (heap s) (heap (exec as s))"
proof (induction as arbitrary: s)
  case Nil
  then show ?case by simp
next
  case (Cons a as)
  show ?case
    using heap_grows_trans [OF heap_grows_step [of s a] Cons.IH [of "step a s"]] by simp
qed

lemma spent_grows: "spent h f \<Longrightarrow> heap_grows h h' \<Longrightarrow> spent h' f"
  by (auto simp: spent_def heap_grows_def split: option.splits)

subsection \<open>Consistency under changes of the queue and the heap\<close>

lemma holds_set_worker:
  "holds (set_worker i w s) j f \<longleftrightarrow>
     (if j = i then i < length (workers_m s) \<and> worker_m w = Have_task \<and> task w = f
      else holds s j f)"
  by (auto simp: holds_def set_worker_def)

lemma holds_queue_upd [simp]: "holds (s\<lparr>pool_queue_m := q\<rparr>) j f = holds s j f"
  by (simp add: holds_def)

lemma holds_heap_upd [simp]: "holds (s\<lparr>heap := h\<rparr>) j f = holds s j f"
  by (simp add: holds_def)

lemma holds_owner_upd [simp]: "holds (s\<lparr>owner := pc\<rparr>) j f = holds s j f"
  by (simp add: holds_def)

lemma pending_set_worker [simp]: "pending (set_worker i w s) f = pending s f"
  by (simp add: pending_def set_worker_def)

lemma pending_queue_upd [simp]: "pending (s\<lparr>pool_queue_m := q\<rparr>) f = pending s f"
  by (simp add: pending_def)

lemma pending_owner_upd [simp]: "pending (s\<lparr>owner := pc\<rparr>) f = pending s f"
  by (simp add: pending_def)

lemma consistentD:
  assumes "consistent s"
  shows "distinct (queue_m (pool_queue_m s))"
    and "f \<in> set (queue_m (pool_queue_m s)) \<Longrightarrow> pending s f"
    and "holds s i f \<Longrightarrow> pending s f"
    and "holds s i f \<Longrightarrow> f \<notin> set (queue_m (pool_queue_m s))"
    and "holds s i f \<Longrightarrow> holds s j f \<Longrightarrow> i = j"
    and "i < length (workers_m s) \<Longrightarrow> worker_m (workers_m s ! i) \<noteq> Have_task \<Longrightarrow>
         spent (heap s) (task (workers_m s ! i))"
    and "log s = []" and "stderr s = []" and "owner s \<noteq> Aborted"
  using assms unfolding consistent_def by blast+

lemma consistentI:
  assumes "distinct (queue_m (pool_queue_m s))"
    and "\<And>f. f \<in> set (queue_m (pool_queue_m s)) \<Longrightarrow> pending s f"
    and "\<And>i f. holds s i f \<Longrightarrow> pending s f \<and> f \<notin> set (queue_m (pool_queue_m s))"
    and "\<And>i j f. holds s i f \<Longrightarrow> holds s j f \<Longrightarrow> i = j"
    and "\<And>i. i < length (workers_m s) \<Longrightarrow> worker_m (workers_m s ! i) \<noteq> Have_task \<Longrightarrow>
         spent (heap s) (task (workers_m s ! i))"
    and "log s = []" and "stderr s = []" and "owner s \<noteq> Aborted"
  shows "consistent s"
  using assms unfolding consistent_def by blast

lemma consistent_ctor: "consistent (task_pool_ctor n)"
  by (rule consistentI)
    (auto simp: task_pool_ctor_def task_queue_ctor_def holds_def ctor_loop_eq
      start_def task_worker_ctor_def spent_def)

lemma consistent_submit:
  assumes c: "consistent s"
  shows "consistent (snd (submit f c' s))"
proof -
  let ?n = "length (heap s)"
  let ?s = "snd (submit f c' s)"
  note d = consistentD [OF c]
  have h: "heap ?s = heap s @ [\<lparr>stored = f, state = Not_ready\<rparr>]"
    and q: "queue_m (pool_queue_m ?s) = queue_m (pool_queue_m s) @ [Some ?n]"
    and w: "workers_m ?s = workers_m s"
    and o: "owner ?s = owner s" "log ?s = log s" "stderr ?s = stderr s"
    by (simp_all add: submit_def enqueue_def Let_def)
  have hd: "holds ?s i g = holds s i g" for i g
    by (simp add: holds_def w)
  have pm: "pending s g \<Longrightarrow> pending ?s g" for g
    by (auto simp: pending_def h nth_append)
  have pn: "pending ?s (Some ?n)"
    by (simp add: pending_def h)
  have fresh: "pending s g \<Longrightarrow> g \<noteq> Some ?n" for g
    by (auto simp: pending_def)
  show ?thesis
  proof (rule consistentI)
    show "distinct (queue_m (pool_queue_m ?s))"
      using d(1) d(2) fresh unfolding q by auto
    show "pending ?s g" if "g \<in> set (queue_m (pool_queue_m ?s))" for g
      using that d(2) pm pn unfolding q by auto
    show "pending ?s g \<and> g \<notin> set (queue_m (pool_queue_m ?s))" if "holds ?s i g" for i g
      using that d(3) [of i g] d(4) [of i g] pm fresh unfolding q hd by auto
    show "i = j" if "holds ?s i g" "holds ?s j g" for i j g
      using that d(5) unfolding hd by blast
    show "spent (heap ?s) (task (workers_m ?s ! i))"
      if "i < length (workers_m ?s)" "worker_m (workers_m ?s ! i) \<noteq> Have_task" for i
      using that d(6) [of i] unfolding w h by (auto intro: spent_grows)
  qed (use d o in simp_all)
qed

lemma consistent_heap_grows:
  assumes c: "consistent s" and g: "heap_grows (heap s) h"
    and keep: "\<And>f. pending s f \<Longrightarrow> f \<in> set (queue_m q) \<or> (\<exists>i. holds s i f) \<Longrightarrow>
                 pending (s\<lparr>heap := h\<rparr>) f"
    and sub: "set (queue_m q) \<subseteq> set (queue_m (pool_queue_m s))" "distinct (queue_m q)"
  shows "consistent (s\<lparr>pool_queue_m := q, heap := h\<rparr>)"
proof -
  note d = consistentD [OF c]
  show ?thesis
  proof (rule consistentI)
    show "distinct (queue_m (pool_queue_m (s\<lparr>pool_queue_m := q, heap := h\<rparr>)))"
      using sub by simp
    show "pending (s\<lparr>pool_queue_m := q, heap := h\<rparr>) f"
      if "f \<in> set (queue_m (pool_queue_m (s\<lparr>pool_queue_m := q, heap := h\<rparr>)))" for f
      using that keep [of f] d(2) [of f] sub by (auto simp: pending_def)
    show "pending (s\<lparr>pool_queue_m := q, heap := h\<rparr>) f
          \<and> f \<notin> set (queue_m (pool_queue_m (s\<lparr>pool_queue_m := q, heap := h\<rparr>)))"
      if "holds (s\<lparr>pool_queue_m := q, heap := h\<rparr>) i f" for i f
      using that keep [of f] d(3) [of i f] d(4) [of i f] sub by (auto simp: pending_def)
    show "i = j"
      if "holds (s\<lparr>pool_queue_m := q, heap := h\<rparr>) i f"
        "holds (s\<lparr>pool_queue_m := q, heap := h\<rparr>) j f" for i j f
      using that d(5) by simp
    show "spent (heap (s\<lparr>pool_queue_m := q, heap := h\<rparr>))
            (task (workers_m (s\<lparr>pool_queue_m := q, heap := h\<rparr>) ! i))"
      if "i < length (workers_m (s\<lparr>pool_queue_m := q, heap := h\<rparr>))"
        "worker_m (workers_m (s\<lparr>pool_queue_m := q, heap := h\<rparr>) ! i) \<noteq> Have_task" for i
      using that d(6) [of i] g by (auto intro: spent_grows)
  qed (use d in simp_all)
qed

lemma consistent_queue:
  assumes c: "consistent s"
    and sub: "set (queue_m q) \<subseteq> set (queue_m (pool_queue_m s))" "distinct (queue_m q)"
  shows "consistent (s\<lparr>pool_queue_m := q\<rparr>)"
  using consistent_heap_grows [OF c heap_grows_refl _ sub] by simp

lemma pending_clear_loop:
  assumes "pending s f" "f \<notin> set xs"
  shows "pending (s\<lparr>heap := snd (clear_loop xs (heap s))\<rparr>) f"
  using assms by (auto simp: pending_def nth_clear_loop)

lemma consistent_clear:
  assumes c: "consistent s"
  shows "consistent (s\<lparr>pool_queue_m := fst (clear (pool_queue_m s, heap s)),
                        heap := snd (clear (pool_queue_m s, heap s))\<rparr>)"
proof -
  note d = consistentD [OF c]
  show ?thesis
    unfolding clear_eq fst_conv snd_conv
  proof (rule consistent_heap_grows [OF c])
    show "pending (s\<lparr>heap := snd (clear_loop (queue_m (pool_queue_m s)) (heap s))\<rparr>) f"
      if "pending s f"
        "f \<in> set (queue_m ((pool_queue_m s)\<lparr>queue_m := [], condition_m := []\<rparr>)) \<or> (\<exists>i. holds s i f)"
      for f
      using that d(4) by (auto intro: pending_clear_loop)
  qed simp_all
qed

lemma consistent_dtor:
  assumes c: "consistent s"
  shows "consistent (s\<lparr>pool_queue_m := fst (task_queue_dtor (pool_queue_m s, heap s)),
                        heap := snd (task_queue_dtor (pool_queue_m s, heap s))\<rparr>)"
proof -
  note d = consistentD [OF c]
  show ?thesis
    unfolding task_queue_dtor_eq fst_conv snd_conv
  proof (rule consistent_heap_grows [OF c])
    show "pending (s\<lparr>heap := snd (clear_loop (queue_m (pool_queue_m s)) (heap s))\<rparr>) f"
      if "pending s f"
        "f \<in> set (queue_m ((pool_queue_m s)\<lparr>valid_m := False, condition_m := [], queue_m := []\<rparr>))
         \<or> (\<exists>i. holds s i f)"
      for f
      using that d(4) by (auto intro: pending_clear_loop)
  qed simp_all
qed

lemma consistent_invalidate: "consistent s \<Longrightarrow> consistent (s\<lparr>pool_queue_m := invalidate (pool_queue_m s)\<rparr>)"
  by (rule consistent_queue) (simp_all add: invalidate_def consistentD(1))

lemma consistent_wake: "consistent s \<Longrightarrow> consistent (s\<lparr>pool_queue_m := (pool_queue_m s)\<lparr>condition_m := cv\<rparr>\<rparr>)"
  by (rule consistent_queue) (simp_all add: consistentD(1))

lemma consistent_owner:
  "consistent s \<Longrightarrow> pc \<noteq> Aborted \<Longrightarrow> consistent (s\<lparr>owner := pc\<rparr>)"
  by (simp add: consistent_def)

subsection \<open>Consistency is an invariant\<close>

lemma consistent_release:
  assumes c: "consistent s" and w: "worker_m w \<noteq> Have_task" "spent (heap s) (task w)"
  shows "consistent (set_worker i w s)"
proof -
  note d = consistentD [OF c]
  show ?thesis
  proof (rule consistentI)
    show "pending (set_worker i w s) f \<and> f \<notin> set (queue_m (pool_queue_m (set_worker i w s)))"
      if "holds (set_worker i w s) j f" for j f
      using that w d(3) [of j f] d(4) [of j f] by (auto simp: holds_set_worker split: if_splits)
    show "j = k" if "holds (set_worker i w s) j f" "holds (set_worker i w s) k f" for j k f
      using that w d(5) [of j f k] by (auto simp: holds_set_worker split: if_splits)
    show "spent (heap (set_worker i w s)) (task (workers_m (set_worker i w s) ! j))"
      if "j < length (workers_m (set_worker i w s))"
        "worker_m (workers_m (set_worker i w s) ! j) \<noteq> Have_task" for j
      using that w d(6) [of j] by (cases "j = i") (auto simp: set_worker_def)
  qed (use d in simp_all)
qed

lemma consistent_take:
  assumes c: "consistent s" and i: "i < length (workers_m s)"
    and pc: "worker_m (workers_m s ! i) = In_dequeue"
    and q: "queue_m (pool_queue_m s) = x # xs"
  shows "consistent (set_worker i ((workers_m s ! i)\<lparr>task := x, worker_m := Have_task\<rparr>)
       (s\<lparr>pool_queue_m := (pool_queue_m s)\<lparr>queue_m := xs\<rparr>,
          heap := destroy_function (task (workers_m s ! i)) (heap s)\<rparr>))"
proof -
  note d = consistentD [OF c]
  let ?w = "(workers_m s ! i)\<lparr>task := x, worker_m := Have_task\<rparr>"
  let ?s0 = "s\<lparr>pool_queue_m := (pool_queue_m s)\<lparr>queue_m := xs\<rparr>\<rparr>"
  have "spent (heap s) (task (workers_m s ! i))"
    using d(6) [OF i] pc by simp
  then have h: "destroy_function (task (workers_m s ! i)) (heap s) = heap s"
    by (rule destroy_function_spent)
  have c0: "consistent ?s0"
    using d(1) q by (intro consistent_queue [OF c]) auto
  note d0 = consistentD [OF c0]
  have nh: "\<not> holds s j x" for j
    using d(4) [of j x] q by auto
  have xq: "x \<notin> set xs" "pending s x"
    using d(1) d(2) [of x] q by auto
  have "consistent (set_worker i ?w ?s0)"
  proof (rule consistentI)
    show "pending (set_worker i ?w ?s0) f \<and> f \<notin> set (queue_m (pool_queue_m (set_worker i ?w ?s0)))"
      if "holds (set_worker i ?w ?s0) j f" for j f
      using that xq d(3) [of j f] d(4) [of j f] q
      by (auto simp: holds_set_worker split: if_splits)
    show "j = k" if "holds (set_worker i ?w ?s0) j f" "holds (set_worker i ?w ?s0) k f" for j k f
      using that nh d(5) [of j f k] by (auto simp: holds_set_worker split: if_splits)
    show "spent (heap (set_worker i ?w ?s0)) (task (workers_m (set_worker i ?w ?s0) ! j))"
      if "j < length (workers_m (set_worker i ?w ?s0))"
        "worker_m (workers_m (set_worker i ?w ?s0) ! j) \<noteq> Have_task" for j
      using that d(6) [of j] by (cases "j = i") (auto simp: set_worker_def)
  qed (use d0 in simp_all)
  then show ?thesis by (simp add: h)
qed

lemma consistent_run:
  assumes c: "consistent s" and i: "i < length (workers_m s)"
    and pc: "worker_m (workers_m s ! i) = Have_task"
    and t: "task (workers_m s ! i) = Some u"
    and p: "state p \<noteq> Not_ready" "stored p = stored (heap s ! u)"
  shows "consistent (set_worker i ((workers_m s ! i)\<lparr>worker_m := Loop_head\<rparr>)
       (s\<lparr>heap := (heap s)[u := p]\<rparr>))"
proof -
  note d = consistentD [OF c]
  let ?w = "(workers_m s ! i)\<lparr>worker_m := Loop_head\<rparr>"
  let ?s0 = "s\<lparr>heap := (heap s)[u := p]\<rparr>"
  have h: "holds s i (Some u)"
    using i pc t by (simp add: holds_def)
  have pu: "u < length (heap s)" "state (heap s ! u) = Not_ready"
    using d(3) [OF h] by (auto simp: pending_def)
  have notq: "Some u \<notin> set (queue_m (pool_queue_m s))"
    using d(4) [OF h] .
  have other: "holds s j f \<Longrightarrow> j \<noteq> i \<Longrightarrow> f \<noteq> Some u" for j f
    using d(5) [of j f i] h by auto
  have keep: "pending s f \<Longrightarrow> f \<noteq> Some u \<Longrightarrow> pending ?s0 f" for f
    by (auto simp: pending_def nth_list_update)
  have g: "heap_grows (heap s) ((heap s)[u := p])"
    using pu p by (auto simp: heap_grows_def nth_list_update)
  show ?thesis
  proof (rule consistentI)
    show "distinct (queue_m (pool_queue_m (set_worker i ?w ?s0)))"
      using d(1) by simp
    show "pending (set_worker i ?w ?s0) f"
      if "f \<in> set (queue_m (pool_queue_m (set_worker i ?w ?s0)))" for f
      using that d(2) [of f] notq keep [of f] by auto
    show "pending (set_worker i ?w ?s0) f \<and> f \<notin> set (queue_m (pool_queue_m (set_worker i ?w ?s0)))"
      if "holds (set_worker i ?w ?s0) j f" for j f
      using that d(3) [of j f] d(4) [of j f] other [of j f] keep [of f]
      by (auto simp: holds_set_worker split: if_splits)
    show "j = k" if "holds (set_worker i ?w ?s0) j f" "holds (set_worker i ?w ?s0) k f" for j k f
      using that d(5) [of j f k] by (auto simp: holds_set_worker split: if_splits)
    show "spent (heap (set_worker i ?w ?s0)) (task (workers_m (set_worker i ?w ?s0) ! j))"
      if "j < length (workers_m (set_worker i ?w ?s0))"
        "worker_m (workers_m (set_worker i ?w ?s0) ! j) \<noteq> Have_task" for j
    proof (cases "j = i")
      case True
      then show ?thesis
        using i t pu p by (simp add: set_worker_def spent_def)
    next
      case False
      then show ?thesis
        using that d(6) [of j] g by (auto simp: set_worker_def intro: spent_grows)
    qed
  qed (use d in simp_all)
qed

lemma consistent_thread_step:
  assumes c: "consistent s"
  shows "consistent (thread_step i s)"
proof (cases "i < length (workers_m s)")
  case False
  then show ?thesis using c by (simp add: thread_step_idle)
next
  case i: True
  note d = consistentD [OF c]
  show ?thesis
  proof (cases "worker_m (workers_m s ! i)")
    case Not_started
    then show ?thesis using c by (simp add: thread_step_idle)
  next
    case Loop_head
    have sp: "spent (heap s) (task (workers_m s ! i))"
      using d(6) [OF i] Loop_head by simp
    then have h: "destroy_function (task (workers_m s ! i)) (heap s) = heap s"
      by (rule destroy_function_spent)
    show ?thesis
      using c i Loop_head sp
      by (simp add: thread_step_Loop_head h consistent_release spent_def)
  next
    case In_dequeue
    show ?thesis
    proof (cases "i \<in> set (condition_m (pool_queue_m s)) \<or> \<not> wait_pred (pool_queue_m s)")
      case True
      then obtain cv where "thread_step i s = s\<lparr>pool_queue_m := (pool_queue_m s)\<lparr>condition_m := cv\<rparr>\<rparr>"
        using thread_step_blocked [OF i In_dequeue] by blast
      then show ?thesis using c by (simp add: consistent_wake)
    next
      case False
      then have ni: "i \<notin> set (condition_m (pool_queue_m s))" and wp: "wait_pred (pool_queue_m s)"
        by simp_all
      show ?thesis
      proof (cases "valid_m (pool_queue_m s)")
        case False
        then show ?thesis
          using c i In_dequeue ni d(6) [OF i]
          by (simp add: thread_step_closed consistent_release)
      next
        case True
        then obtain x xs where q: "queue_m (pool_queue_m s) = x # xs"
          using wp by (cases "queue_m (pool_queue_m s)") (simp_all add: wait_pred_def)
        show ?thesis
          using thread_step_take [OF i In_dequeue ni True q] consistent_take [OF c i In_dequeue q]
          by simp
      qed
    qed
  next
    case Have_task
    then have "holds s i (task (workers_m s ! i))"
      using i by (simp add: holds_def)
    then have "pending s (task (workers_m s ! i))"
      by (rule d(3))
    then obtain u where u: "task (workers_m s ! i) = Some u" "u < length (heap s)"
      "state (heap s ! u) = Not_ready"
      by (auto simp: pending_def)
    let ?p = "(heap s ! u)\<lparr>state :=
            outcome (stored (heap s ! u))\<rparr>"
    have "state ?p \<noteq> Not_ready" "stored ?p = stored (heap s ! u)"
      by simp_all
    then show ?thesis
      using thread_step_run [OF i Have_task u] consistent_run [OF c i Have_task u(1), of ?p]
      by simp
  next
    case Finished
    then show ?thesis using c by (simp add: thread_step_idle)
  next
    case Joined
    then show ?thesis using c by (simp add: thread_step_idle)
  qed
qed

lemma consistent_same_thread:
  assumes "consistent s" "i < length (workers_m s)"
    "worker_m w = worker_m (workers_m s ! i)" "task w = task (workers_m s ! i)"
  shows "consistent (set_worker i w s)"
proof -
  have h: "holds (set_worker i w s) j f = holds s j f" for j f
    using assms(2-4) by (auto simp: holds_def set_worker_def nth_list_update)
  have t: "j < length (workers_m s) \<Longrightarrow>
           worker_m (workers_m (set_worker i w s) ! j) = worker_m (workers_m s ! j)
           \<and> task (workers_m (set_worker i w s) ! j) = task (workers_m s ! j)" for j
    using assms(2-4) by (auto simp: set_worker_def nth_list_update)
  show ?thesis
    using assms(1) unfolding consistent_def h by (simp add: t)
qed

lemma consistent_destroy_step:
  assumes c: "consistent s"
  shows "consistent (destroy_step s)"
proof (cases "owner s")
  case Alive
  then show ?thesis
    using consistent_owner [OF consistent_invalidate [OF c], of "Deleting 0"]
    by (simp add: destroy_step_def)
next
  case (Deleting i)
  show ?thesis
  proof (cases "i < length (workers_m s)")
    case True
    have "consistent (set_worker i (stop_store (workers_m s ! i)) (s\<lparr>owner := Joining i\<rparr>))"
      using True by (intro consistent_same_thread consistent_owner c) (simp_all add: stop_store_def)
    then show ?thesis using Deleting True by (simp add: destroy_step_def)
  next
    case False
    then show ?thesis
      using Deleting consistent_owner [OF consistent_dtor [OF c], of Destroyed]
      by (auto simp: destroy_step_def split: prod.splits)
  qed
next
  case (Joining i)
  have "consistent (set_worker i ((workers_m s ! i)\<lparr>worker_m := Joined\<rparr>) (s\<lparr>owner := Deleting (Suc i)\<rparr>))"
    if f: "worker_m (workers_m s ! i) = Finished"
  proof (cases "i < length (workers_m s)")
    case True
    then show ?thesis
      using f consistentD(6) [OF c, of i]
      by (intro consistent_release consistent_owner c) simp_all
  next
    case False
    then show ?thesis
      using c by (simp add: set_worker_def list_update_beyond consistent_owner)
  qed
  then show ?thesis
    using Joining c by (auto simp: destroy_step_def Let_def consistent_owner)
next
  case Destroyed
  then show ?thesis using c by (simp add: destroy_step_def)
next
  case Aborted
  then show ?thesis using c by (simp add: destroy_step_def)
qed

lemma consistent_step: "consistent s \<Longrightarrow> consistent (step a s)"
  using consistent_clear [of s]
  by (cases a)
    (auto simp: step_def consistent_submit consistent_invalidate
      consistent_wake consistent_thread_step consistent_destroy_step split: prod.splits)

lemma consistent_exec: "consistent s \<Longrightarrow> consistent (exec as s)"
  by (induction as arbitrary: s) (simp_all add: consistent_step)

lemma exec_dead: "owner s = Destroyed \<or> owner s = Aborted \<Longrightarrow> exec as s = s"
  by (induction as) (simp_all add: step_def)

lemma consistent_reachable: "consistent (exec as (task_pool_ctor n))"
  by (simp add: consistent_exec consistent_ctor)

lemma destroyed_empty_step:
  "(owner s = Destroyed \<longrightarrow> queue_m (pool_queue_m s) = []) \<Longrightarrow>
   owner (step a s) = Destroyed \<Longrightarrow> queue_m (pool_queue_m (step a s)) = []"
proof (cases "owner s = Destroyed \<or> owner s = Aborted")
  case True
  assume "owner s = Destroyed \<longrightarrow> queue_m (pool_queue_m s) = []" "owner (step a s) = Destroyed"
  then show ?thesis using True by (auto simp: step_def)
next
  case False
  assume o: "owner (step a s) = Destroyed"
  show ?thesis
  proof (cases a)
    case (Work i)
    then show ?thesis
      using o False thread_step_frame [of i s] by (auto simp: step_def)
  qed (use o False in \<open>auto simp: step_def submit_def enqueue_def Let_def clear_eq destroy_step_def
        task_queue_dtor_eq set_worker_def split: prod.splits pool_pc.splits if_splits\<close>)
qed

lemma destroyed_empty_reachable:
  "owner (exec as (task_pool_ctor n)) = Destroyed \<Longrightarrow>
   queue_m (pool_queue_m (exec as (task_pool_ctor n))) = []"
proof -
  have "(owner s = Destroyed \<longrightarrow> queue_m (pool_queue_m s) = []) \<Longrightarrow>
        (owner (exec as s) = Destroyed \<longrightarrow> queue_m (pool_queue_m (exec as s)) = [])"
    for s :: "'a task_pool"
    by (induction as arbitrary: s) (auto simp: destroyed_empty_step)
  then show "owner (exec as (task_pool_ctor n)) = Destroyed \<Longrightarrow>
   queue_m (pool_queue_m (exec as (task_pool_ctor n))) = []"
    by (simp add: task_pool_ctor_def)
qed

subsection \<open>Invalidation, the stop flags, and units that never run\<close>

lemma step_keeps_invalid:
  "\<not> valid_m (pool_queue_m s) \<Longrightarrow> \<not> valid_m (pool_queue_m (step a s))"
  by (cases a)
    (auto simp: step_def submit_def enqueue_def Let_def clear_eq invalidate_def
      thread_step_frame destroy_step_def task_queue_dtor_eq set_worker_def
      split: pool_pc.splits)

lemma exec_keeps_invalid:
  "\<not> valid_m (pool_queue_m s) \<Longrightarrow> \<not> valid_m (pool_queue_m (exec as s))"
  by (induction as arbitrary: s) (simp_all add: step_keeps_invalid)

lemma list_ex_stop: "list_ex stop_m ws = (True \<in> set (map stop_m ws))"
  by (induction ws) auto

lemma sai_step: "stop_after_invalidate s \<Longrightarrow> stop_after_invalidate (step a s)"
proof (cases "valid_m (pool_queue_m s)")
  case False
  then show ?thesis by (simp add: stop_after_invalidate_def step_keeps_invalid)
next
  case True
  assume "stop_after_invalidate s"
  with True have o: "owner s = Alive \<or> owner s = Aborted" and ns: "\<not> list_ex stop_m (workers_m s)"
    by (simp_all add: stop_after_invalidate_def)
  show ?thesis
  proof (cases "owner s = Aborted")
    case True
    then show ?thesis using \<open>stop_after_invalidate s\<close> by (simp add: step_def)
  next
    case False
    with o have al: "owner s = Alive" by simp
    show ?thesis
    proof (cases a)
      case (Work i)
      then show ?thesis
        using al ns thread_step_frame [of i s]
        by (auto simp: stop_after_invalidate_def step_def list_ex_stop)
    qed (use al ns in \<open>auto simp: stop_after_invalidate_def step_def submit_def enqueue_def
          Let_def clear_eq invalidate_def destroy_step_def\<close>)
  qed
qed

lemma stop_after_invalidate_reachable: "stop_after_invalidate (exec as (task_pool_ctor n))"
proof -
  have "stop_after_invalidate s \<Longrightarrow> stop_after_invalidate (exec as s)" for s :: "'a task_pool"
    by (induction as arbitrary: s) (simp_all add: sai_step)
  moreover have "stop_after_invalidate (task_pool_ctor n :: 'a task_pool)"
    by (simp add: stop_after_invalidate_def task_pool_ctor_def task_queue_ctor_def ctor_loop_eq
        list_ex_stop start_def task_worker_ctor_def)
  ultimately show ?thesis by blast
qed

lemma has_run_grows:
  "heap_grows h h' \<Longrightarrow> u < length h \<Longrightarrow> has_run (h ! u) \<Longrightarrow> has_run (h' ! u)"
  by (auto simp: heap_grows_def has_run_def split: shared_state.splits)

lemma has_run_destroy_function [simp]:
  "u < length h \<Longrightarrow> has_run (destroy_function f h ! u) = has_run (h ! u)"
  by (simp add: nth_destroy_function)

lemma has_run_clear_loop [simp]:
  "u < length h \<Longrightarrow> has_run (snd (clear_loop xs h) ! u) = has_run (h ! u)"
  by (simp add: nth_clear_loop)

lemma never_run_queue:
  "never_run u s \<Longrightarrow> (Some u \<in> set (queue_m q) \<longrightarrow> \<not> valid_m q) \<Longrightarrow>
   never_run u (s\<lparr>pool_queue_m := q\<rparr>)"
  by (simp add: never_run_def)

lemma never_run_release:
  "never_run u s \<Longrightarrow> worker_m w \<noteq> Have_task \<Longrightarrow> never_run u (set_worker i w s)"
  by (auto simp: never_run_def holds_set_worker)

lemma never_run_same_thread:
  "never_run u s \<Longrightarrow> i < length (workers_m s) \<Longrightarrow> task w = task (workers_m s ! i) \<Longrightarrow>
   worker_m w = worker_m (workers_m s ! i) \<Longrightarrow> never_run u (set_worker i w s)"
  by (auto simp: never_run_def holds_set_worker) (auto simp: holds_def)

lemma never_run_owner [simp]: "never_run u (s\<lparr>owner := pc\<rparr>) = never_run u s"
  by (simp add: never_run_def)

lemma never_run_thread_step:
  assumes c: "consistent s" and n: "never_run u s"
  shows "never_run u (thread_step i s)"
proof (cases "i < length (workers_m s)")
  case False
  then show ?thesis using n by (simp add: thread_step_idle)
next
  case i: True
  note d = consistentD [OF c]
  show ?thesis
  proof (cases "worker_m (workers_m s ! i)")
    case Not_started
    then show ?thesis using n by (simp add: thread_step_idle)
  next
    case Loop_head
    have "destroy_function (task (workers_m s ! i)) (heap s) = heap s"
      using d(6) [OF i] Loop_head by (simp add: destroy_function_spent)
    then show ?thesis
      using n i Loop_head by (auto simp: thread_step_Loop_head never_run_release)
  next
    case In_dequeue
    have h: "destroy_function (task (workers_m s ! i)) (heap s) = heap s"
      using d(6) [OF i] In_dequeue by (simp add: destroy_function_spent)
    show ?thesis
    proof (cases "i \<in> set (condition_m (pool_queue_m s)) \<or> \<not> wait_pred (pool_queue_m s)")
      case True
      then obtain cv where "thread_step i s = s\<lparr>pool_queue_m := (pool_queue_m s)\<lparr>condition_m := cv\<rparr>\<rparr>"
        using thread_step_blocked [OF i In_dequeue] by blast
      then show ?thesis using n by (simp add: never_run_def)
    next
      case False
      then have ni: "i \<notin> set (condition_m (pool_queue_m s))" and wp: "wait_pred (pool_queue_m s)"
        by simp_all
      show ?thesis
      proof (cases "valid_m (pool_queue_m s)")
        case False
        then show ?thesis
          using n i In_dequeue ni
          by (auto simp: thread_step_closed never_run_release)
      next
        case True
        then obtain x xs where q: "queue_m (pool_queue_m s) = x # xs"
          using wp by (cases "queue_m (pool_queue_m s)") (simp_all add: wait_pred_def)
        have "x \<noteq> Some u" using n True q by (auto simp: never_run_def)
        then show ?thesis
          using n True q thread_step_take [OF i In_dequeue ni True q] h
          by (auto simp: never_run_def holds_set_worker)
      qed
    qed
  next
    case Have_task
    then have h: "holds s i (task (workers_m s ! i))"
      using i by (simp add: holds_def)
    then have "pending s (task (workers_m s ! i))"
      by (rule d(3))
    then obtain v where v: "task (workers_m s ! i) = Some v" "v < length (heap s)"
      "state (heap s ! v) = Not_ready"
      by (auto simp: pending_def)
    have "v \<noteq> u" using n h v(1) by (auto simp: never_run_def)
    then show ?thesis
      using n thread_step_run [OF i Have_task v]
      by (auto simp: never_run_def holds_set_worker)
  next
    case Finished
    then show ?thesis using n by (simp add: thread_step_idle)
  next
    case Joined
    then show ?thesis using n by (simp add: thread_step_idle)
  qed
qed

lemma never_run_invalidate:
  "never_run u s \<Longrightarrow> never_run u (s\<lparr>pool_queue_m := invalidate (pool_queue_m s)\<rparr>)"
  by (simp add: never_run_def invalidate_def)

lemma never_run_destroy_step:
  assumes n: "never_run u s"
  shows "never_run u (destroy_step s)"
proof (cases "owner s")
  case Alive
  then show ?thesis
    using never_run_invalidate [OF n] by (simp add: destroy_step_def)
next
  case (Deleting i)
  then show ?thesis
    using n
    by (auto simp: destroy_step_def stop_store_def never_run_same_thread task_queue_dtor_eq)
      (simp add: never_run_def)
next
  case (Joining i)
  then show ?thesis
    using n by (auto simp: destroy_step_def Let_def never_run_release)
qed (use n in \<open>simp_all add: destroy_step_def\<close>)

lemma never_run_step:
  assumes c: "consistent s" and n: "never_run u s"
  shows "never_run u (step a s)"
proof (cases a)
  case (Submit f c)
  then show ?thesis
    using n by (auto simp: step_def submit_def enqueue_def Let_def never_run_def holds_def nth_append)
next
  case Call_clear
  then show ?thesis
    using n by (auto simp: step_def clear_eq never_run_def)
next
  case Call_invalidate
  then show ?thesis
    using n never_run_invalidate [OF n] by (simp add: step_def)
next
  case (Work i)
  then show ?thesis
    using n never_run_thread_step [OF c n] by (simp add: step_def)
next
  case (Wake i)
  then show ?thesis
    using n by (auto simp: step_def never_run_def)
next
  case Destroy
  then show ?thesis
    using n never_run_destroy_step [OF n] by (simp add: step_def)
qed

lemma never_run_exec:
  "consistent s \<Longrightarrow> never_run u s \<Longrightarrow> never_run u (exec as s)"
  by (induction as arbitrary: s) (simp_all add: never_run_step consistent_step)

subsection \<open>One worker runs the units in order\<close>

lemma in_orderI: "ordered_at s w k \<Longrightarrow> in_order s"
  by (auto simp: in_order_def)

lemma ordered_atD:
  assumes "ordered_at s w k"
  shows "workers_m s = [w]" "k \<le> length (heap s)" "run_prefix s k"
    "if worker_m w = Have_task
     then task w = Some k \<and> k < length (heap s)
          \<and> queue_m (pool_queue_m s) = map Some [Suc k ..< length (heap s)]
     else queue_m (pool_queue_m s) = map Some [k ..< length (heap s)]"
  using assms by (simp_all add: ordered_at_def)

lemma in_order_ctor: "in_order (task_pool_ctor (Suc 0))"
  by (rule in_orderI [of _ "start task_worker_ctor" 0])
    (simp add: ordered_at_def run_prefix_def task_pool_ctor_def task_queue_ctor_def start_def
      task_worker_ctor_def)

lemma in_order_dead: "in_order s \<Longrightarrow> owner s = Destroyed \<or> owner s = Aborted \<Longrightarrow> in_order (step a s)"
  by (simp add: step_def)

lemma ordered_at_submit:
  assumes o: "ordered_at s w k"
  shows "ordered_at (snd (submit f c s)) w k"
proof -
  note d = ordered_atD [OF o]
  let ?s = "snd (submit f c s)"
  have h: "heap ?s = heap s @ [\<lparr>stored = f, state = Not_ready\<rparr>]"
    and qq: "queue_m (pool_queue_m ?s) = queue_m (pool_queue_m s) @ [Some (length (heap s))]"
    and ww: "workers_m ?s = [w]"
    using d(1) by (simp_all add: submit_def enqueue_def Let_def)
  have ex': "run_prefix ?s k"
    using d(2,3) by (auto simp: run_prefix_def h nth_append less_Suc_eq has_run_def)
  have q': "if worker_m w = Have_task
            then task w = Some k \<and> k < length (heap ?s)
                 \<and> queue_m (pool_queue_m ?s) = map Some [Suc k ..< length (heap ?s)]
            else queue_m (pool_queue_m ?s) = map Some [k ..< length (heap ?s)]"
    using d(2,4) by (auto simp: h qq)
  show ?thesis
    using ww d(2) ex' q' by (simp add: ordered_at_def h)
qed

lemma ordered_at_cong:
  assumes "ordered_at s w k" "workers_m s' = workers_m s" "heap s' = heap s"
    "queue_m (pool_queue_m s') = queue_m (pool_queue_m s)"
  shows "ordered_at s' w k"
  using assms by (simp add: ordered_at_def run_prefix_def)

lemma ordered_at_thread_step:
  assumes c: "consistent s" and o: "ordered_at s w k"
  shows "\<exists>w' k'. ordered_at (thread_step i s) w' k'"
proof -
  note d = ordered_atD [OF o]
  note cd = consistentD [OF c]
  show ?thesis
  proof (cases "i = 0")
    case False
    then show ?thesis using o d(1) by (auto simp: thread_step_idle)
  next
    case True
    have i: "i < length (workers_m s)" and wi: "workers_m s ! i = w"
      using True d(1) by simp_all
    have sp: "worker_m w \<noteq> Have_task \<Longrightarrow> destroy_function (task w) (heap s) = heap s"
      using cd(6) [OF i] wi by (simp add: destroy_function_spent)
    show ?thesis
    proof (cases "worker_m w")
      case Not_started
      then show ?thesis using o wi by (auto simp: thread_step_idle)
    next
      case Loop_head
      let ?w = "if stop_m w then w\<lparr>worker_m := Finished, task := None\<rparr> else w\<lparr>worker_m := In_dequeue\<rparr>"
      have "thread_step i s = set_worker i ?w s"
        using thread_step_Loop_head [OF i] wi Loop_head sp by simp
      moreover have "ordered_at (set_worker i ?w s) ?w k"
        using d Loop_head True by (simp add: ordered_at_def run_prefix_def set_worker_def)
      ultimately show ?thesis by metis
    next
      case In_dequeue
      show ?thesis
      proof (cases "i \<in> set (condition_m (pool_queue_m s)) \<or> \<not> wait_pred (pool_queue_m s)")
        case True
        then obtain cv where "thread_step i s = s\<lparr>pool_queue_m := (pool_queue_m s)\<lparr>condition_m := cv\<rparr>\<rparr>"
          using thread_step_blocked [OF i] In_dequeue wi by auto
        then show ?thesis using ordered_at_cong [OF o, of "thread_step i s"] by auto
      next
        case False
        then have ni: "i \<notin> set (condition_m (pool_queue_m s))" and wp: "wait_pred (pool_queue_m s)"
          by simp_all
        have pc: "worker_m (workers_m s ! i) = In_dequeue"
          using In_dequeue wi by simp
        show ?thesis
        proof (cases "valid_m (pool_queue_m s)")
          case False
          then have "thread_step i s = set_worker i (w\<lparr>worker_m := Loop_head\<rparr>) s"
            using thread_step_closed [OF i pc ni] wi by simp
          moreover have "ordered_at (set_worker i (w\<lparr>worker_m := Loop_head\<rparr>) s) (w\<lparr>worker_m := Loop_head\<rparr>) k"
            using d In_dequeue True by (simp add: ordered_at_def run_prefix_def set_worker_def)
          ultimately show ?thesis by auto
        next
          case v: True
          have qq: "queue_m (pool_queue_m s) = map Some [k ..< length (heap s)]"
            using d(4) In_dequeue by simp
          have "queue_m (pool_queue_m s) \<noteq> []"
            using wp v by (simp add: wait_pred_def)
          then have kl: "k < length (heap s)"
            using qq by simp
          then have qc: "queue_m (pool_queue_m s) = Some k # map Some [Suc k ..< length (heap s)]"
            using qq by (simp add: upt_conv_Cons)
          let ?w = "w\<lparr>task := Some k, worker_m := Have_task\<rparr>"
          let ?s = "set_worker i ?w
                  (s\<lparr>pool_queue_m := (pool_queue_m s)\<lparr>queue_m := map Some [Suc k ..< length (heap s)]\<rparr>\<rparr>)"
          have "thread_step i s = ?s"
            using thread_step_take [OF i pc ni v qc] wi sp In_dequeue by simp
          moreover have "ordered_at ?s ?w k"
            using d kl True by (simp add: ordered_at_def run_prefix_def set_worker_def)
          ultimately show ?thesis by auto
        qed
      qed
    next
      case Have_task
      then have tk: "task w = Some k" and kl: "k < length (heap s)"
        and qq: "queue_m (pool_queue_m s) = map Some [Suc k ..< length (heap s)]"
        using d(4) by simp_all
      have "holds s i (Some k)"
        using i wi Have_task tk by (simp add: holds_def)
      then have nr: "state (heap s ! k) = Not_ready"
        using cd(3) by (auto simp: pending_def)
      have pc: "worker_m (workers_m s ! i) = Have_task" and tk': "task (workers_m s ! i) = Some k"
        using Have_task wi tk by simp_all
      let ?p = "(heap s ! k)\<lparr>state :=
            outcome (stored (heap s ! k))\<rparr>"
      let ?s = "set_worker i (w\<lparr>worker_m := Loop_head\<rparr>) (s\<lparr>heap := (heap s)[k := ?p]\<rparr>)"
      have st: "thread_step i s = ?s"
        using thread_step_run [OF i pc tk' kl nr] wi by simp
      have rdy: "has_run ?p"
        by simp
      have ex': "run_prefix ?s (Suc k)"
        using d(3) rdy kl by (auto simp: run_prefix_def nth_list_update less_Suc_eq)
      have "ordered_at ?s (w\<lparr>worker_m := Loop_head\<rparr>) (Suc k)"
        using d(1) kl ex' qq True by (simp add: ordered_at_def set_worker_def)
      then show ?thesis unfolding st by auto
    next
      case Finished
      then show ?thesis using o wi by (auto simp: thread_step_idle)
    next
      case Joined
      then show ?thesis using o wi by (auto simp: thread_step_idle)
    qed
  qed
qed

lemma ordered_at_same_thread:
  assumes o: "ordered_at s w k"
    and w': "worker_m w' = worker_m w \<and> task w' = task w
             \<or> worker_m w' \<noteq> Have_task \<and> worker_m w \<noteq> Have_task"
  shows "\<exists>w''. ordered_at (set_worker i w' s) w'' k"
proof -
  note d = ordered_atD [OF o]
  show ?thesis
  proof (cases i)
    case 0
    have "ordered_at (set_worker i w' s) w' k"
      using d w' 0 by (auto simp: ordered_at_def run_prefix_def set_worker_def)
    then show ?thesis by auto
  next
    case (Suc j)
    then have "set_worker i w' s = s"
      using d(1) by (simp add: set_worker_def)
    then show ?thesis using o by auto
  qed
qed

lemma in_order_destroy_step:
  assumes o: "ordered_at s w k"
  shows "in_order (destroy_step s)"
proof (cases "owner s")
  case Alive
  have "ordered_at (s\<lparr>pool_queue_m := invalidate (pool_queue_m s), owner := Deleting 0\<rparr>) w k"
    by (rule ordered_at_cong [OF o]) (simp_all add: invalidate_def)
  then show ?thesis
    using Alive by (auto simp: destroy_step_def intro: in_orderI)
next
  case (Deleting i)
  note d = ordered_atD [OF o]
  have a: "ordered_at (s\<lparr>owner := Joining i\<rparr>) w k"
    by (rule ordered_at_cong [OF o]) simp_all
  show ?thesis
  proof (cases "i < length (workers_m s)")
    case True
    then have i0: "i = 0" "workers_m s ! i = w" using d(1) by auto
    have "\<exists>w''. ordered_at (set_worker i (stop_store w) (s\<lparr>owner := Joining i\<rparr>)) w'' k"
      using a by (rule ordered_at_same_thread) (simp add: stop_store_def)
    then show ?thesis
      using Deleting True i0 by (auto simp: destroy_step_def intro: in_orderI)
  next
    case False
    have "run_prefix (s\<lparr>pool_queue_m := q, heap := snd (clear_loop (queue_m (pool_queue_m s)) (heap s)),
             owner := Destroyed\<rparr>) k" for q
      using d(3) by (simp add: run_prefix_def)
    then show ?thesis
      using Deleting False by (auto simp: destroy_step_def task_queue_dtor_eq in_order_def)
  qed
next
  case (Joining i)
  note d = ordered_atD [OF o]
  have a: "ordered_at (s\<lparr>owner := Deleting (Suc i)\<rparr>) w k"
    by (rule ordered_at_cong [OF o]) simp_all
  have b: "\<exists>w''. ordered_at (set_worker i ((workers_m s ! i)\<lparr>worker_m := Joined\<rparr>)
                   (s\<lparr>owner := Deleting (Suc i)\<rparr>)) w'' k"
    if f: "worker_m (workers_m s ! i) = Finished"
  proof (cases "i < length (workers_m s)")
    case True
    then have i0: "i = 0" "workers_m s ! i = w" using d(1) by auto
    show ?thesis
      using a by (rule ordered_at_same_thread) (use f i0 in simp)
  next
    case False
    then show ?thesis
      using a by (auto simp: set_worker_def list_update_beyond)
  qed
  show ?thesis
    using Joining a b o by (auto simp: destroy_step_def Let_def intro: in_orderI)
qed (use o in \<open>auto simp: destroy_step_def intro: in_orderI\<close>)

lemma in_order_step:
  assumes c: "consistent s" and io: "in_order s" and a: "a \<noteq> Call_clear"
  shows "in_order (step a s)"
proof (cases "owner s = Destroyed \<or> owner s = Aborted")
  case True
  then show ?thesis using io by (simp add: step_def)
next
  case False
  then obtain w k where o: "ordered_at s w k"
    using io by (auto simp: in_order_def)
  have st: "owner s \<noteq> Destroyed" "owner s \<noteq> Aborted" using False by simp_all
  show ?thesis
  proof (cases a)
    case (Submit f c)
    then show ?thesis
      using st ordered_at_submit [OF o] by (auto simp: step_def intro: in_orderI)
  next
    case Call_clear
    then show ?thesis using a by simp
  next
    case Call_invalidate
    have "ordered_at (s\<lparr>pool_queue_m := invalidate (pool_queue_m s)\<rparr>) w k"
      by (rule ordered_at_cong [OF o]) (simp_all add: invalidate_def)
    then show ?thesis
      using st Call_invalidate by (auto simp: step_def intro: in_orderI)
  next
    case (Work i)
    then show ?thesis
      using st ordered_at_thread_step [OF c o, of i] by (auto simp: step_def intro: in_orderI)
  next
    case (Wake i)
    have "ordered_at (s\<lparr>pool_queue_m :=
            (pool_queue_m s)\<lparr>condition_m := removeAll i (condition_m (pool_queue_m s))\<rparr>\<rparr>) w k"
      by (rule ordered_at_cong [OF o]) simp_all
    then show ?thesis
      using st Wake by (auto simp: step_def intro: in_orderI)
  next
    case Destroy
    then show ?thesis
      using st in_order_destroy_step [OF o] by (simp add: step_def)
  qed
qed

lemma in_order_exec:
  "consistent s \<Longrightarrow> in_order s \<Longrightarrow> Call_clear \<notin> set as \<Longrightarrow> in_order (exec as s)"
proof (induction as arbitrary: s)
  case Nil
  then show ?case by simp
next
  case (Cons a as)
  from Cons.prems have "a \<noteq> Call_clear" "Call_clear \<notin> set as"
    by auto
  then show ?case
    using Cons.IH [OF consistent_step [OF Cons.prems(1)] in_order_step [OF Cons.prems(1,2)]]
    by simp
qed

lemma run_prefix_reachable:
  "Call_clear \<notin> set as \<Longrightarrow> \<exists>k. run_prefix (exec as (task_pool_ctor (Suc 0))) k"
  using in_order_exec [OF consistent_ctor in_order_ctor, of as]
  by (auto simp: in_order_def ordered_at_def)

subsection \<open>Order of execution when units may be discarded\<close>

lemma later_onlyI: "later_at s w k lo us \<Longrightarrow> later_only s"
  by (auto simp: later_only_def)

lemma later_atD:
  assumes "later_at s w k lo us"
  shows "workers_m s = [w]" "k \<le> lo" "lo \<le> length (heap s)"
    "\<forall>u < length (heap s). has_run (heap s ! u) \<longrightarrow> u < k"
    "queue_m (pool_queue_m s) = map Some us" "sorted_wrt (<) us"
    "\<forall>u \<in> set us. lo \<le> u \<and> u < length (heap s)"
    "worker_m w = Have_task \<Longrightarrow> \<exists>j. task w = Some j \<and> k \<le> j \<and> j < lo"
  using assms by (simp_all add: later_at_def)

lemma later_only_ctor: "later_only (task_pool_ctor (Suc 0))"
  by (rule later_onlyI [of _ "start task_worker_ctor" 0 0 "[]"])
    (simp add: later_at_def task_pool_ctor_def task_queue_ctor_def start_def task_worker_ctor_def)

lemma later_at_cong:
  assumes "later_at s w k lo us" "workers_m s' = workers_m s" "heap s' = heap s"
    "queue_m (pool_queue_m s') = queue_m (pool_queue_m s)"
  shows "later_at s' w k lo us"
  using assms by (simp add: later_at_def)

lemma later_at_submit:
  assumes o: "later_at s w k lo us"
  shows "later_at (snd (submit f c s)) w k lo (us @ [length (heap s)])"
proof -
  note d = later_atD [OF o]
  let ?s = "snd (submit f c s)"
  have h: "heap ?s = heap s @ [\<lparr>stored = f, state = Not_ready\<rparr>]"
    and qq: "queue_m (pool_queue_m ?s) = queue_m (pool_queue_m s) @ [Some (length (heap s))]"
    and ww: "workers_m ?s = [w]"
    using d(1) by (simp_all add: submit_def enqueue_def Let_def)
  have r: "\<forall>u < length (heap ?s). has_run (heap ?s ! u) \<longrightarrow> u < k"
    using d(4) by (auto simp: h nth_append less_Suc_eq has_run_def)
  have s: "sorted_wrt (<) (us @ [length (heap s)])"
    using d(6,7) by (auto simp: sorted_wrt_append)
  have b: "\<forall>u \<in> set (us @ [length (heap s)]). lo \<le> u \<and> u < length (heap ?s)"
    using d(3,7) by (auto simp: h)
  show ?thesis
    unfolding later_at_def using ww d(2,3,5,8) r s b
    by (simp add: h qq)
qed

lemma later_at_thread_step:
  assumes c: "consistent s" and o: "later_at s w k lo us"
  shows "\<exists>w' k' lo' us'. later_at (thread_step i s) w' k' lo' us'"
proof -
  note d = later_atD [OF o]
  note cd = consistentD [OF c]
  show ?thesis
  proof (cases "i = 0")
    case False
    then show ?thesis using o d(1) by (auto simp: thread_step_idle)
  next
    case True
    have i: "i < length (workers_m s)" and wi: "workers_m s ! i = w"
      using True d(1) by simp_all
    have sp: "worker_m w \<noteq> Have_task \<Longrightarrow> destroy_function (task w) (heap s) = heap s"
      using cd(6) [OF i] wi by (simp add: destroy_function_spent)
    show ?thesis
    proof (cases "worker_m w")
      case Not_started
      then show ?thesis using o wi by (auto simp: thread_step_idle)
    next
      case Loop_head
      let ?w = "if stop_m w then w\<lparr>worker_m := Finished, task := None\<rparr> else w\<lparr>worker_m := In_dequeue\<rparr>"
      have "thread_step i s = set_worker i ?w s"
        using thread_step_Loop_head [OF i] wi Loop_head sp by simp
      moreover have "later_at (set_worker i ?w s) ?w k lo us"
        using o Loop_head True by (simp add: later_at_def set_worker_def)
      ultimately show ?thesis by metis
    next
      case In_dequeue
      show ?thesis
      proof (cases "i \<in> set (condition_m (pool_queue_m s)) \<or> \<not> wait_pred (pool_queue_m s)")
        case True
        then obtain cv where "thread_step i s = s\<lparr>pool_queue_m := (pool_queue_m s)\<lparr>condition_m := cv\<rparr>\<rparr>"
          using thread_step_blocked [OF i] In_dequeue wi by auto
        then show ?thesis using later_at_cong [OF o, of "thread_step i s"] by auto
      next
        case False
        then have ni: "i \<notin> set (condition_m (pool_queue_m s))" and wp: "wait_pred (pool_queue_m s)"
          by simp_all
        have pc: "worker_m (workers_m s ! i) = In_dequeue"
          using In_dequeue wi by simp
        show ?thesis
        proof (cases "valid_m (pool_queue_m s)")
          case False
          then have "thread_step i s = set_worker i (w\<lparr>worker_m := Loop_head\<rparr>) s"
            using thread_step_closed [OF i pc ni] wi by simp
          moreover have "later_at (set_worker i (w\<lparr>worker_m := Loop_head\<rparr>) s)
                           (w\<lparr>worker_m := Loop_head\<rparr>) k lo us"
            using o In_dequeue True by (simp add: later_at_def set_worker_def)
          ultimately show ?thesis by metis
        next
          case v: True
          have "queue_m (pool_queue_m s) \<noteq> []"
            using wp v by (simp add: wait_pred_def)
          then obtain u0 us' where us: "us = u0 # us'"
            using d(5) by (cases us) simp_all
          have qc: "queue_m (pool_queue_m s) = Some u0 # map Some us'"
            using d(5) us by simp
          let ?w = "w\<lparr>task := Some u0, worker_m := Have_task\<rparr>"
          let ?s = "set_worker i ?w (s\<lparr>pool_queue_m := (pool_queue_m s)\<lparr>queue_m := map Some us'\<rparr>\<rparr>)"
          have "thread_step i s = ?s"
            using thread_step_take [OF i pc ni v qc] wi sp In_dequeue by simp
          moreover have "later_at ?s ?w k (Suc u0) us'"
          proof -
            have u0: "lo \<le> u0" "u0 < length (heap s)"
              using d(7) us by simp_all
            have "\<forall>u \<in> set us'. Suc u0 \<le> u \<and> u < length (heap s)"
              using d(6,7) us by auto
            then show ?thesis
              unfolding later_at_def
              using d(1,2,4,6) u0 us True by (simp add: set_worker_def)
          qed
          ultimately show ?thesis by metis
        qed
      qed
    next
      case Have_task
      then obtain j where tk: "task w = Some j" and kj: "k \<le> j" "j < lo"
        using d(8) by auto
      have jl: "j < length (heap s)" using kj d(3) by simp
      have "holds s i (Some j)"
        using i wi Have_task tk by (simp add: holds_def)
      then have nr: "state (heap s ! j) = Not_ready"
        using cd(3) by (auto simp: pending_def)
      have pc: "worker_m (workers_m s ! i) = Have_task" and tk': "task (workers_m s ! i) = Some j"
        using Have_task wi tk by simp_all
      let ?p = "(heap s ! j)\<lparr>state := outcome (stored (heap s ! j))\<rparr>"
      let ?s = "set_worker i (w\<lparr>worker_m := Loop_head\<rparr>) (s\<lparr>heap := (heap s)[j := ?p]\<rparr>)"
      have st: "thread_step i s = ?s"
        using thread_step_run [OF i pc tk' jl nr] wi by simp
      have r: "\<forall>u < length (heap s). has_run ((heap s)[j := ?p] ! u) \<longrightarrow> u < Suc j"
      proof (intro allI impI)
        fix u
        assume u: "u < length (heap s)" "has_run ((heap s)[j := ?p] ! u)"
        show "u < Suc j"
        proof (cases "u = j")
          case True
          then show ?thesis by simp
        next
          case False
          then have "has_run (heap s ! u)" using u by (simp add: nth_list_update)
          then have "u < k" using d(4) u(1) by blast
          then show ?thesis using kj by simp
        qed
      qed
      have "later_at ?s (w\<lparr>worker_m := Loop_head\<rparr>) (Suc j) lo us"
        unfolding later_at_def
        using d(1,3,5,6,7) kj r True by (simp add: set_worker_def)
      then show ?thesis unfolding st by metis
    next
      case Finished
      then show ?thesis using o wi by (auto simp: thread_step_idle)
    next
      case Joined
      then show ?thesis using o wi by (auto simp: thread_step_idle)
    qed
  qed
qed

lemma later_at_same_thread:
  assumes o: "later_at s w k lo us"
    and w': "worker_m w' = worker_m w \<and> task w' = task w
             \<or> worker_m w' \<noteq> Have_task \<and> worker_m w \<noteq> Have_task"
  shows "\<exists>w''. later_at (set_worker i w' s) w'' k lo us"
proof (cases i)
  case 0
  have "later_at (set_worker i w' s) w' k lo us"
    using o w' 0 by (auto simp: later_at_def set_worker_def)
  then show ?thesis by auto
next
  case (Suc j)
  then have "set_worker i w' s = s"
    using later_atD(1) [OF o] by (simp add: set_worker_def)
  then show ?thesis using o by auto
qed

lemma later_only_destroy_step:
  assumes o: "later_at s w k lo us"
  shows "later_only (destroy_step s)"
proof (cases "owner s")
  case Alive
  have "later_at (s\<lparr>pool_queue_m := invalidate (pool_queue_m s), owner := Deleting 0\<rparr>) w k lo us"
    by (rule later_at_cong [OF o]) (simp_all add: invalidate_def)
  then show ?thesis
    using Alive by (auto simp: destroy_step_def intro: later_onlyI)
next
  case (Deleting i)
  note d = later_atD [OF o]
  have a: "later_at (s\<lparr>owner := Joining i\<rparr>) w k lo us"
    by (rule later_at_cong [OF o]) simp_all
  show ?thesis
  proof (cases "i < length (workers_m s)")
    case True
    then have i0: "i = 0" "workers_m s ! i = w" using d(1) by auto
    have "\<exists>w''. later_at (set_worker i (stop_store w) (s\<lparr>owner := Joining i\<rparr>)) w'' k lo us"
      using a by (rule later_at_same_thread) (simp add: stop_store_def)
    then show ?thesis
      using Deleting True i0 by (auto simp: destroy_step_def intro: later_onlyI)
  next
    case False
    then show ?thesis
      using Deleting by (auto simp: destroy_step_def task_queue_dtor_eq later_only_def)
  qed
next
  case (Joining i)
  note d = later_atD [OF o]
  have a: "later_at (s\<lparr>owner := Deleting (Suc i)\<rparr>) w k lo us"
    by (rule later_at_cong [OF o]) simp_all
  have b: "\<exists>w''. later_at (set_worker i ((workers_m s ! i)\<lparr>worker_m := Joined\<rparr>)
                   (s\<lparr>owner := Deleting (Suc i)\<rparr>)) w'' k lo us"
    if f: "worker_m (workers_m s ! i) = Finished"
  proof (cases "i < length (workers_m s)")
    case True
    then have i0: "i = 0" "workers_m s ! i = w" using d(1) by auto
    show ?thesis
      using a by (rule later_at_same_thread) (use f i0 in simp)
  next
    case False
    then show ?thesis
      using a by (auto simp: set_worker_def list_update_beyond)
  qed
  show ?thesis
    using Joining a b o by (auto simp: destroy_step_def Let_def intro: later_onlyI)
qed (use o in \<open>auto simp: destroy_step_def intro: later_onlyI\<close>)

lemma later_at_clear:
  assumes o: "later_at s w k lo us"
  shows "later_at (s\<lparr>pool_queue_m := fst (clear (pool_queue_m s, heap s)),
                      heap := snd (clear (pool_queue_m s, heap s))\<rparr>) w k lo []"
  using o by (simp add: later_at_def clear_eq)

lemma later_only_step:
  assumes c: "consistent s" and io: "later_only s"
  shows "later_only (step a s)"
proof (cases "owner s = Destroyed \<or> owner s = Aborted")
  case True
  then show ?thesis using io by (simp add: step_def)
next
  case False
  then obtain w k lo us where o: "later_at s w k lo us"
    using io by (auto simp: later_only_def)
  have st: "owner s \<noteq> Destroyed" "owner s \<noteq> Aborted" using False by simp_all
  show ?thesis
  proof (cases a)
    case (Submit f c)
    then show ?thesis
      using st later_at_submit [OF o] by (auto simp: step_def intro: later_onlyI)
  next
    case Call_clear
    then show ?thesis
      using st later_at_clear [OF o] by (auto simp: step_def split: prod.splits intro: later_onlyI)
  next
    case Call_invalidate
    have "later_at (s\<lparr>pool_queue_m := invalidate (pool_queue_m s)\<rparr>) w k lo us"
      by (rule later_at_cong [OF o]) (simp_all add: invalidate_def)
    then show ?thesis
      using st Call_invalidate by (auto simp: step_def intro: later_onlyI)
  next
    case (Work i)
    then show ?thesis
      using st later_at_thread_step [OF c o, of i] by (auto simp: step_def intro: later_onlyI)
  next
    case (Wake i)
    have "later_at (s\<lparr>pool_queue_m :=
            (pool_queue_m s)\<lparr>condition_m := removeAll i (condition_m (pool_queue_m s))\<rparr>\<rparr>) w k lo us"
      by (rule later_at_cong [OF o]) simp_all
    then show ?thesis
      using st Wake by (auto simp: step_def intro: later_onlyI)
  next
    case Destroy
    then show ?thesis
      using st later_only_destroy_step [OF o] by (simp add: step_def)
  qed
qed

lemma later_only_reachable: "later_only (exec as (task_pool_ctor (Suc 0)))"
proof -
  have "consistent s \<Longrightarrow> later_only s \<Longrightarrow> later_only (exec as s)" for s :: "'a task_pool"
    by (induction as arbitrary: s) (simp_all add: later_only_step consistent_step)
  then show ?thesis
    using consistent_ctor later_only_ctor by blast
qed

lemma overtaken_never_runs:
  assumes uv: "u < v" and vl: "v < length (heap (exec as (task_pool_ctor (Suc 0))))"
    and vr: "has_run (heap (exec as (task_pool_ctor (Suc 0))) ! v)"
    and ur: "\<not> has_run (heap (exec as (task_pool_ctor (Suc 0))) ! u)"
  shows "\<not> has_run (heap (exec as' (exec as (task_pool_ctor (Suc 0)))) ! u)"
proof (cases "owner (exec as (task_pool_ctor (Suc 0))) = Destroyed")
  case True
  then show ?thesis using ur by (simp add: exec_dead)
next
  case False
  let ?s = "exec as (task_pool_ctor (Suc 0))"
  obtain w k lo us where o: "later_at ?s w k lo us"
    using later_only_reachable [of as] False by (auto simp: later_only_def)
  note d = later_atD [OF o]
  have vk: "v < k" using d(4) vl vr by blast
  have nh: "\<not> holds ?s i (Some u)" for i
    using d(1) d(8) uv vk by (auto simp: holds_def)
  have "u \<notin> set us"
    using d(2,7) uv vk by fastforce
  then have nq: "Some u \<notin> set (queue_m (pool_queue_m ?s))"
    using d(5) by auto
  have "never_run u ?s"
    using uv vl ur nh nq by (simp add: never_run_def)
  then have "never_run u (exec as' ?s)"
    using never_run_exec [OF consistent_reachable] by blast
  then show ?thesis by (simp add: never_run_def)
qed

subsection \<open>Shared states of reachable systems\<close>

lemma ready_forever:
  "u < length (heap s) \<Longrightarrow> state (heap s ! u) \<noteq> Not_ready \<Longrightarrow>
   u < length (heap (exec as s)) \<and> heap (exec as s) ! u = heap s ! u"
  using heap_grows_exec [of s as] by (auto simp: heap_grows_def)

lemma not_run_cases: "\<not> has_run p \<Longrightarrow> state p = Not_ready \<or> state p = Broken_promise"
  by (simp add: has_run_def split: shared_state.splits)

lemma right_state_abandon: "right_state p \<Longrightarrow> right_state (abandon p)"
  by (auto simp: right_state_def abandon_def split: shared_state.splits)

lemma right_destroy_function:
  "list_all right_state h \<Longrightarrow> list_all right_state (destroy_function f h)"
  by (auto simp: list_all_length nth_destroy_function right_state_abandon)

lemma right_clear_loop:
  "list_all right_state h \<Longrightarrow> list_all right_state (snd (clear_loop xs h))"
  by (auto simp: list_all_length nth_clear_loop right_state_abandon)

lemma right_invoke: "list_all right_state h \<Longrightarrow> list_all right_state (snd (invoke f h))"
  by (auto simp: list_all_length invoke_def call_packaged_def nth_list_update right_state_def
      split: option.splits prod.splits shared_state.splits)

lemma right_thread_step:
  assumes "list_all right_state (heap s)"
  shows "list_all right_state (heap (thread_step i s))"
proof (cases "length (workers_m s) \<le> i")
  case True
  then show ?thesis using assms by (simp add: thread_step_def)
next
  case False
  show ?thesis
  proof (cases "worker_m (workers_m s ! i)")
    case In_dequeue
    then show ?thesis
      using False assms by (simp add: thread_step_def Let_def dequeue_def right_destroy_function)
  next
    case Have_task
    have "heap (thread_step i s) = snd (invoke (task (workers_m s ! i)) (heap s))"
      using False Have_task
      by (simp add: thread_step_def Let_def split: prod.splits option.splits exn.splits)
    then show ?thesis using assms by (simp add: right_invoke)
  qed (use False assms in \<open>simp_all add: thread_step_def Let_def right_destroy_function\<close>)
qed

lemma right_step:
  assumes "list_all right_state (heap s)"
  shows "list_all right_state (heap (step a s))"
proof (cases a)
  case Destroy
  then show ?thesis
    using assms
    by (cases "owner s")
      (simp_all add: step_def destroy_step_def task_queue_dtor_eq Let_def right_clear_loop)
qed (use assms in \<open>simp_all add: step_def submit_def enqueue_def Let_def clear_eq
      right_thread_step right_clear_loop right_state_def\<close>)

lemma right_reachable: "list_all right_state (heap (exec as (task_pool_ctor n)))"
proof -
  have "list_all right_state (heap s) \<Longrightarrow> list_all right_state (heap (exec as s))"
    for s :: "'a task_pool"
    by (induction as arbitrary: s) (simp_all add: right_step)
  then show ?thesis by (simp add: task_pool_ctor_def)
qed

subsection \<open>Packaged tasks that are not ready are queued or held\<close>

lemma owned_ctor: "owned (task_pool_ctor n)"
  by (simp add: owned_def task_pool_ctor_def)

lemma owned_release:
  assumes o: "owned s" and i: "i < length (workers_m s)"
    and n: "worker_m (workers_m s ! i) \<noteq> Have_task"
  shows "owned (set_worker i w s)"
  unfolding owned_def
proof (intro allI impI)
  fix u
  assume "u < length (heap (set_worker i w s))"
    and "state (heap (set_worker i w s) ! u) = Not_ready"
  then have "Some u \<in> set (queue_m (pool_queue_m s)) \<or> (\<exists>j. holds s j (Some u))"
    using o by (simp add: owned_def)
  moreover have "holds (set_worker i w s) j (Some u)" if "holds s j (Some u)" for j
  proof -
    have "j \<noteq> i" using that n by (auto simp: holds_def)
    then show ?thesis using that by (simp add: holds_set_worker)
  qed
  ultimately show "Some u \<in> set (queue_m (pool_queue_m (set_worker i w s)))
                   \<or> (\<exists>j. holds (set_worker i w s) j (Some u))"
    by auto
qed

lemma owned_thread_step:
  assumes c: "consistent s" and o: "owned s"
  shows "owned (thread_step i s)"
proof (cases "i < length (workers_m s)")
  case False
  then show ?thesis using o by (simp add: thread_step_idle)
next
  case i: True
  note d = consistentD [OF c]
  have sp: "worker_m (workers_m s ! i) \<noteq> Have_task \<Longrightarrow>
            destroy_function (task (workers_m s ! i)) (heap s) = heap s"
    using d(6) [OF i] by (simp add: destroy_function_spent)
  have keep: "holds s j f \<Longrightarrow> j \<noteq> i \<Longrightarrow> holds (set_worker i w s') j f"
    if "workers_m s' = workers_m s" for j f w and s' :: "'a task_pool"
    using that by (auto simp: holds_def set_worker_def)
  have nh: "worker_m (workers_m s ! i) \<noteq> Have_task \<Longrightarrow> holds s j f \<Longrightarrow> j \<noteq> i" for j f
    by (auto simp: holds_def)
  show ?thesis
  proof (cases "worker_m (workers_m s ! i)")
    case Not_started
    then show ?thesis using o by (simp add: thread_step_idle)
  next
    case Loop_head
    then show ?thesis
      using thread_step_Loop_head [OF i] sp owned_release [OF o i] by simp
  next
    case In_dequeue
    show ?thesis
    proof (cases "i \<in> set (condition_m (pool_queue_m s)) \<or> \<not> wait_pred (pool_queue_m s)")
      case True
      then obtain cv where "thread_step i s = s\<lparr>pool_queue_m := (pool_queue_m s)\<lparr>condition_m := cv\<rparr>\<rparr>"
        using thread_step_blocked [OF i In_dequeue] by blast
      then show ?thesis using o by (simp add: owned_def)
    next
      case False
      then have ni: "i \<notin> set (condition_m (pool_queue_m s))" and wp: "wait_pred (pool_queue_m s)"
        by simp_all
      show ?thesis
      proof (cases "valid_m (pool_queue_m s)")
        case False
        then have st: "thread_step i s = set_worker i ((workers_m s ! i)\<lparr>worker_m := Loop_head\<rparr>) s"
          using thread_step_closed [OF i In_dequeue ni] by simp
        show ?thesis
          unfolding st using owned_release [OF o i] In_dequeue by simp
      next
        case True
        then obtain x xs where q: "queue_m (pool_queue_m s) = x # xs"
          using wp by (cases "queue_m (pool_queue_m s)") (simp_all add: wait_pred_def)
        let ?s' = "s\<lparr>pool_queue_m := (pool_queue_m s)\<lparr>queue_m := xs\<rparr>\<rparr>"
        have st: "thread_step i s
                  = set_worker i ((workers_m s ! i)\<lparr>task := x, worker_m := Have_task\<rparr>) ?s'"
          using thread_step_take [OF i In_dequeue ni True q] sp In_dequeue by simp
        have hx: "holds (set_worker i ((workers_m s ! i)\<lparr>task := x, worker_m := Have_task\<rparr>) ?s') i x"
          using i by (simp add: holds_set_worker)
        show ?thesis
          unfolding st owned_def
        proof (intro allI impI)
          fix u
          assume "u < length (heap (set_worker i ((workers_m s ! i)\<lparr>task := x, worker_m := Have_task\<rparr>) ?s'))"
            and "state (heap (set_worker i ((workers_m s ! i)\<lparr>task := x, worker_m := Have_task\<rparr>) ?s') ! u)
                 = Not_ready"
          then have "Some u \<in> set (queue_m (pool_queue_m s)) \<or> (\<exists>j. holds s j (Some u))"
            using o by (simp add: owned_def)
          then consider "Some u = x" | "Some u \<in> set xs" | j where "holds s j (Some u)"
            using q by auto
          then show "Some u \<in> set (queue_m (pool_queue_m
                        (set_worker i ((workers_m s ! i)\<lparr>task := x, worker_m := Have_task\<rparr>) ?s')))
                 \<or> (\<exists>j. holds (set_worker i ((workers_m s ! i)\<lparr>task := x, worker_m := Have_task\<rparr>) ?s')
                          j (Some u))"
          proof cases
            case 1
            then show ?thesis using hx by auto
          next
            case 2
            then show ?thesis by simp
          next
            case 3
            then have "j \<noteq> i" using nh In_dequeue by auto
            then have "holds (set_worker i ((workers_m s ! i)\<lparr>task := x, worker_m := Have_task\<rparr>) ?s')
                         j (Some u)"
              using 3 by (simp add: holds_set_worker)
            then show ?thesis by blast
          qed
        qed
      qed
    qed
  next
    case Have_task
    then have h: "holds s i (task (workers_m s ! i))"
      using i by (simp add: holds_def)
    then have "pending s (task (workers_m s ! i))"
      by (rule d(3))
    then obtain v where v: "task (workers_m s ! i) = Some v" "v < length (heap s)"
      "state (heap s ! v) = Not_ready"
      by (auto simp: pending_def)
    let ?p = "(heap s ! v)\<lparr>state := outcome (stored (heap s ! v))\<rparr>"
    let ?s' = "set_worker i ((workers_m s ! i)\<lparr>worker_m := Loop_head\<rparr>) (s\<lparr>heap := (heap s)[v := ?p]\<rparr>)"
    have st: "thread_step i s = ?s'"
      using thread_step_run [OF i Have_task v] .
    show ?thesis
      unfolding st owned_def
    proof (intro allI impI)
      fix u
      assume ul: "u < length (heap ?s')" and un: "state (heap ?s' ! u) = Not_ready"
      have uv: "u \<noteq> v"
        using un v(2) by (auto simp: nth_list_update)
      then have "state (heap s ! u) = Not_ready" "u < length (heap s)"
        using ul un by (simp_all add: nth_list_update)
      then have "Some u \<in> set (queue_m (pool_queue_m s)) \<or> (\<exists>j. holds s j (Some u))"
        using o by (simp add: owned_def)
      moreover have "holds ?s' j (Some u)" if "holds s j (Some u)" for j
      proof -
        have "j \<noteq> i" using that h v(1) uv d(5) [of j "Some u" i] by (auto simp: holds_def)
        then show ?thesis using that by (simp add: holds_set_worker)
      qed
      ultimately show "Some u \<in> set (queue_m (pool_queue_m ?s')) \<or> (\<exists>j. holds ?s' j (Some u))"
        by auto
    qed
  next
    case Finished
    then show ?thesis using o by (simp add: thread_step_idle)
  next
    case Joined
    then show ?thesis using o by (simp add: thread_step_idle)
  qed
qed


lemma owned_queue:
  "owned s \<Longrightarrow> queue_m q = queue_m (pool_queue_m s) \<Longrightarrow> owned (s\<lparr>pool_queue_m := q\<rparr>)"
  by (simp add: owned_def)

lemma owned_owner [simp]: "owned (s\<lparr>owner := pc\<rparr>) = owned s"
  by (simp add: owned_def)

lemma owned_submit:
  assumes o: "owned s"
  shows "owned (snd (submit f c s))"
  unfolding owned_def
proof (intro allI impI)
  fix u
  let ?s = "snd (submit f c s)"
  assume ul: "u < length (heap ?s)" and un: "state (heap ?s ! u) = Not_ready"
  have h: "heap ?s = heap s @ [\<lparr>stored = f, state = Not_ready\<rparr>]"
    and q: "queue_m (pool_queue_m ?s) = queue_m (pool_queue_m s) @ [Some (length (heap s))]"
    and hd: "holds ?s j g = holds s j g" for j g
    by (simp_all add: submit_def enqueue_def Let_def holds_def)
  show "Some u \<in> set (queue_m (pool_queue_m ?s)) \<or> (\<exists>j. holds ?s j (Some u))"
  proof (cases "u < length (heap s)")
    case True
    then have "state (heap s ! u) = Not_ready"
      using un by (simp add: h nth_append)
    then show ?thesis
      using o True unfolding q hd by (auto simp: owned_def)
  next
    case False
    then have "u = length (heap s)" using ul by (simp add: h)
    then show ?thesis unfolding q by simp
  qed
qed

lemma owned_clear_loop:
  assumes o: "owned s" and qe: "queue_m q = []"
  shows "owned (s\<lparr>pool_queue_m := q,
                   heap := snd (clear_loop (queue_m (pool_queue_m s)) (heap s))\<rparr>)"
  unfolding owned_def
proof (intro allI impI)
  fix u
  let ?s = "s\<lparr>pool_queue_m := q,
              heap := snd (clear_loop (queue_m (pool_queue_m s)) (heap s))\<rparr>"
  assume ul: "u < length (heap ?s)" and un: "state (heap ?s ! u) = Not_ready"
  have ul': "u < length (heap s)" using ul by simp
  have nq: "Some u \<notin> set (queue_m (pool_queue_m s))"
    using un ul' by (auto simp: nth_clear_loop)
  then have "state (heap s ! u) = Not_ready"
    using un ul' by (simp add: nth_clear_loop)
  then have "\<exists>j. holds s j (Some u)"
    using o ul' nq by (auto simp: owned_def)
  then show "Some u \<in> set (queue_m (pool_queue_m ?s)) \<or> (\<exists>j. holds ?s j (Some u))"
    by simp
qed

lemma owned_same_thread:
  assumes "owned s" "i < length (workers_m s)"
    "worker_m w = worker_m (workers_m s ! i)" "task w = task (workers_m s ! i)"
  shows "owned (set_worker i w s)"
proof -
  have "holds (set_worker i w s) j f = holds s j f" for j f
    using assms(2-4) by (auto simp: holds_def set_worker_def nth_list_update)
  then show ?thesis
    using assms(1) by (simp add: owned_def)
qed

lemma owned_destroy_step:
  assumes o: "owned s"
  shows "owned (destroy_step s)"
proof (cases "owner s")
  case Alive
  then show ?thesis
    using owned_queue [OF o, of "invalidate (pool_queue_m s)"]
    by (simp add: destroy_step_def invalidate_def)
next
  case (Deleting i)
  show ?thesis
  proof (cases "i < length (workers_m s)")
    case True
    have "owned (set_worker i (stop_store (workers_m s ! i)) (s\<lparr>owner := Joining i\<rparr>))"
      using True o by (intro owned_same_thread) (simp_all add: stop_store_def)
    then show ?thesis using Deleting True by (simp add: destroy_step_def)
  next
    case False
    then show ?thesis
      using Deleting o by (simp add: destroy_step_def task_queue_dtor_eq owned_clear_loop)
  qed
next
  case (Joining i)
  have "owned (set_worker i ((workers_m s ! i)\<lparr>worker_m := Joined\<rparr>) (s\<lparr>owner := Deleting (Suc i)\<rparr>))"
    if f: "worker_m (workers_m s ! i) = Finished"
  proof (cases "i < length (workers_m s)")
    case True
    then show ?thesis
      using f o by (intro owned_release) simp_all
  next
    case False
    then show ?thesis
      using o by (simp add: set_worker_def list_update_beyond)
  qed
  then show ?thesis
    using Joining o by (auto simp: destroy_step_def Let_def)
qed (use o in \<open>simp_all add: destroy_step_def\<close>)

lemma owned_step:
  assumes c: "consistent s" and o: "owned s"
  shows "owned (step a s)"
proof (cases a)
  case (Submit f c)
  then show ?thesis using o owned_submit [OF o] by (simp add: step_def)
next
  case Call_clear
  then show ?thesis
    using o by (simp add: step_def clear_eq owned_clear_loop)
next
  case Call_invalidate
  then show ?thesis
    using o owned_queue [OF o, of "invalidate (pool_queue_m s)"]
    by (simp add: step_def invalidate_def)
next
  case (Work i)
  then show ?thesis using o owned_thread_step [OF c o] by (simp add: step_def)
next
  case (Wake i)
  then show ?thesis using o by (simp add: step_def owned_queue)
next
  case Destroy
  then show ?thesis using o owned_destroy_step [OF o] by (simp add: step_def)
qed

lemma owned_reachable: "owned (exec as (task_pool_ctor n))"
proof -
  have "consistent s \<Longrightarrow> owned s \<Longrightarrow> owned (exec as s)" for s :: "'a task_pool"
    by (induction as arbitrary: s) (simp_all add: owned_step consistent_step)
  then show ?thesis
    using consistent_ctor owned_ctor by blast
qed

lemma owned_exec: "consistent s \<Longrightarrow> owned s \<Longrightarrow> owned (exec as s)"
  by (induction as arbitrary: s) (simp_all add: owned_step consistent_step)

subsection \<open>The destructor stops and joins the workers in order\<close>

lemma teardown_order_ctor: "teardown_order (task_pool_ctor n)"
  by (simp add: teardown_order_def task_pool_ctor_def task_queue_ctor_def ctor_loop_eq
      live_def start_def task_worker_ctor_def)

text \<open>What one step of a thread does to its worker.\<close>

lemma thread_step_worker:
  assumes i: "i < length (workers_m s)"
  shows "\<exists>w. workers_m (thread_step i s) = (workers_m s)[i := w]
           \<and> stop_m w = stop_m (workers_m s ! i)
           \<and> (worker_m (workers_m s ! i) \<in> {Not_started, Finished, Joined} \<longrightarrow> w = workers_m s ! i)
           \<and> (worker_m (workers_m s ! i) \<in> {Loop_head, In_dequeue, Have_task} \<longrightarrow>
                worker_m w \<in> {Loop_head, In_dequeue, Have_task}
                \<or> worker_m w = Finished \<and> stop_m w)"
proof (cases "worker_m (workers_m s ! i)")
  case In_dequeue
  then show ?thesis
    using i
    by (auto simp: thread_step_def Let_def set_worker_def dequeue_def
        intro: exI [of _ "workers_m s ! i"])
next
  case Have_task
  then show ?thesis
    using i
    by (auto simp: thread_step_def Let_def set_worker_def
        split: prod.splits option.splits exn.splits intro: exI [of _ "workers_m s ! i"])
next
  case Loop_head
  then show ?thesis
    using i by (auto simp: thread_step_def Let_def set_worker_def load_def)
qed (use i in \<open>auto simp: thread_step_def Let_def intro: exI [of _ "workers_m s ! i"]\<close>)

lemma thread_step_wait_set:
  "\<not> valid_m (pool_queue_m s) \<Longrightarrow>
   condition_m (pool_queue_m (thread_step i s)) = condition_m (pool_queue_m s)"
proof (cases "length (workers_m s) \<le> i")
  case True
  then show ?thesis by (simp add: thread_step_def)
next
  case False
  assume inv: "\<not> valid_m (pool_queue_m s)"
  show ?thesis
  proof (cases "worker_m (workers_m s ! i)")
    case In_dequeue
    then show ?thesis
      using False inv by (simp add: thread_step_def Let_def dequeue_def wait_pred_def)
  next
    case Have_task
    then show ?thesis
      using False
      by (simp add: thread_step_def Let_def split: prod.splits option.splits exn.splits)
  qed (use False in \<open>simp_all add: thread_step_def Let_def\<close>)
qed

lemma teardown_order_thread_step:
  assumes t: "teardown_order s"
  shows "teardown_order (thread_step i s)"
proof (cases "length (workers_m s) \<le> i")
  case True
  then show ?thesis using t by (simp add: thread_step_def)
next
  case False
  then have i: "i < length (workers_m s)" by simp
  obtain w where w: "workers_m (thread_step i s) = (workers_m s)[i := w]"
    "stop_m w = stop_m (workers_m s ! i)"
    "worker_m (workers_m s ! i) \<in> {Not_started, Finished, Joined} \<longrightarrow> w = workers_m s ! i"
    "worker_m (workers_m s ! i) \<in> {Loop_head, In_dequeue, Have_task} \<longrightarrow>
       worker_m w \<in> {Loop_head, In_dequeue, Have_task} \<or> worker_m w = Finished \<and> stop_m w"
    using thread_step_worker [OF i] by blast
  have v: "valid_m (pool_queue_m (thread_step i s)) = valid_m (pool_queue_m s)"
    using thread_step_frame [of i s] by simp
  have c: "\<not> valid_m (pool_queue_m s) \<longrightarrow>
      condition_m (pool_queue_m (thread_step i s)) = condition_m (pool_queue_m s)"
    by (simp add: thread_step_wait_set)
  have o: "owner (thread_step i s) = owner s \<or> owner (thread_step i s) = Aborted"
    using thread_step_frame [of i s] by simp
  have l: "live (workers_m s ! i) \<Longrightarrow> live w"
    using w(2-4) by (auto simp: live_def)
  have st: "stopped (workers_m s ! i) \<Longrightarrow> stopped w"
    using w(2-4) by (auto simp: stopped_def)
  have sg: "stopping (workers_m s ! i) \<Longrightarrow> stopping w"
    using w(2-4) by (auto simp: stopping_def)
  have first: "\<not> valid_m (pool_queue_m (thread_step i s)) \<longrightarrow>
      condition_m (pool_queue_m (thread_step i s)) = []"
    using t v c by (simp add: teardown_order_def)
  from o show ?thesis
  proof
    assume "owner (thread_step i s) = Aborted"
    then show ?thesis using first by (simp add: teardown_order_def)
  next
    assume same: "owner (thread_step i s) = owner s"
    show ?thesis
    proof (cases "owner s")
      case Alive
      then show ?thesis
        using t first same l i
        by (auto simp: teardown_order_def w(1) v nth_list_update)
    next
      case (Deleting j)
      then show ?thesis
        using t first same l st i
        by (auto simp: teardown_order_def w(1) v nth_list_update)
    next
      case (Joining j)
      then show ?thesis
        using t first same l st sg i
        by (auto simp: teardown_order_def w(1) v nth_list_update)
    next
      case Destroyed
      then show ?thesis
        using t first same st i
        by (auto simp: teardown_order_def w(1) v nth_list_update)
    next
      case Aborted
      then show ?thesis
        using first same by (simp add: teardown_order_def)
    qed
  qed
qed

lemma teardown_order_destroy_step:
  assumes t: "teardown_order s"
  shows "teardown_order (destroy_step s)"
proof (cases "owner s")
  case Alive
  then show ?thesis
    using t by (simp add: teardown_order_def destroy_step_def invalidate_def notify_all_def)
next
  case (Deleting i)
  show ?thesis
  proof (cases "i < length (workers_m s)")
    case True
    have "live (workers_m s ! i)"
      using t Deleting True by (auto simp: teardown_order_def)
    then have "stopping (stop_store (workers_m s ! i))"
      by (auto simp: live_def stopping_def stop_store_def store_def)
    then show ?thesis
      using t Deleting True
      by (auto simp: teardown_order_def destroy_step_def set_worker_def nth_list_update)
  next
    case False
    then show ?thesis
      using t Deleting
      by (auto simp: teardown_order_def destroy_step_def task_queue_dtor_eq)
  qed
next
  case (Joining i)
  have il: "i < length (workers_m s)" and sg: "stopping (workers_m s ! i)"
    using t Joining by (auto simp: teardown_order_def)
  have j: "joinable (workers_m s ! i)"
    using sg by (auto simp: stopping_def joinable_def)
  show ?thesis
  proof (cases "worker_m (workers_m s ! i) = Finished")
    case True
    have "stopped ((workers_m s ! i)\<lparr>worker_m := Joined\<rparr>)"
      using sg by (simp add: stopping_def stopped_def)
    then show ?thesis
      using t Joining True j il
      by (auto simp: teardown_order_def destroy_step_def Let_def set_worker_def nth_list_update
          less_Suc_eq)
  next
    case False
    then show ?thesis
      using t Joining j by (simp add: destroy_step_def Let_def)
  qed
qed (use t in \<open>simp_all add: destroy_step_def\<close>)

lemma teardown_order_step:
  assumes t: "teardown_order s"
  shows "teardown_order (step a s)"
proof (cases "owner s = Destroyed \<or> owner s = Aborted")
  case True
  then show ?thesis using t by (auto simp: step_def)
next
  case False
  show ?thesis
  proof (cases a)
    case (Submit f c)
    then show ?thesis
      using t False
      by (auto simp: step_def submit_def enqueue_def Let_def teardown_order_def notify_one_def
          split: pool_pc.splits)
  next
    case Call_clear
    then show ?thesis
      using t False
      by (auto simp: step_def clear_eq teardown_order_def split: pool_pc.splits)
  next
    case Call_invalidate
    then show ?thesis
      using t False
      by (auto simp: step_def invalidate_def notify_all_def teardown_order_def
          split: pool_pc.splits)
  next
    case (Work i)
    then show ?thesis
      using False teardown_order_thread_step [OF t] by (simp add: step_def)
  next
    case (Wake i)
    then show ?thesis
      using t False
      by (auto simp: step_def teardown_order_def split: pool_pc.splits)
  next
    case Destroy
    then show ?thesis
      using False teardown_order_destroy_step [OF t] by (simp add: step_def)
  qed
qed

lemma teardown_order_exec: "teardown_order s \<Longrightarrow> teardown_order (exec as s)"
  by (induction as arbitrary: s) (simp_all add: teardown_order_step)

lemma teardown_order_reachable: "teardown_order (exec as (task_pool_ctor n))"
  by (simp add: teardown_order_exec teardown_order_ctor)

lemma length_workers_step: "length (workers_m (step a s)) = length (workers_m s)"
proof (cases a)
  case (Work i)
  show ?thesis
  proof (cases "i < length (workers_m s)")
    case True
    then show ?thesis
      using thread_step_worker [OF True] Work by (auto simp: step_def)
  next
    case False
    then show ?thesis using Work by (simp add: step_def thread_step_def)
  qed
qed (auto simp: step_def submit_def enqueue_def Let_def clear_eq destroy_step_def
      task_queue_dtor_eq split: pool_pc.splits)

lemma length_workers_reachable: "length (workers_m (exec as (task_pool_ctor n))) = n"
proof -
  have "length (workers_m (exec as s)) = length (workers_m s)" for s :: "'a task_pool"
    by (induction as arbitrary: s) (simp_all add: length_workers_step)
  then show ?thesis by (simp add: task_pool_ctor_def ctor_loop_eq)
qed

lemma join_step:
  assumes c: "consistent s" and t: "teardown_order s" and o: "owner s = Joining i"
  shows "owner (thread_step i s) = Joining i
         \<and> worker_m (workers_m (thread_step i s) ! i)
             = (case worker_m (workers_m s ! i) of
                  In_dequeue \<Rightarrow> Loop_head | Have_task \<Rightarrow> Loop_head | _ \<Rightarrow> Finished)"
proof -
  have il: "i < length (workers_m s)" and inv: "\<not> valid_m (pool_queue_m s)"
    and sg: "stopping (workers_m s ! i)" and cv: "condition_m (pool_queue_m s) = []"
    using t o by (auto simp: teardown_order_def)
  show ?thesis
  proof (cases "worker_m (workers_m s ! i)")
    case Loop_head
    then show ?thesis
      using il sg o by (simp add: thread_step_Loop_head stopping_def set_worker_def)
  next
    case In_dequeue
    then show ?thesis
      using il inv cv o by (simp add: thread_step_closed set_worker_def)
  next
    case Have_task
    then have "holds s i (task (workers_m s ! i))"
      using il by (simp add: holds_def)
    then obtain u where "task (workers_m s ! i) = Some u" "u < length (heap s)"
      "state (heap s ! u) = Not_ready"
      using consistentD(3) [OF c] by (auto simp: pending_def)
    then show ?thesis
      using il Have_task o by (simp add: thread_step_run set_worker_def)
  next
    case Finished
    then show ?thesis
      using o by (simp add: thread_step_idle)
  qed (use sg in \<open>simp_all add: stopping_def\<close>)
qed

lemma join_returns:
  assumes c: "consistent s" and t: "teardown_order s" and o: "owner s = Joining i"
  shows "owner (exec [Work i, Work i] s) = Joining i
         \<and> worker_m (workers_m (exec [Work i, Work i] s) ! i) = Finished
         \<and> owner (exec [Work i, Work i, Destroy] s) = Deleting (Suc i)"
proof -
  let ?s1 = "thread_step i s"
  let ?s2 = "thread_step i ?s1"
  have s1: "step (Work i) s = ?s1" using o by (simp add: step_def)
  have a1: "owner ?s1 = Joining i"
    and w1: "worker_m (workers_m ?s1 ! i) \<in> {Loop_head, Finished}"
    using join_step [OF c t o] by (auto split: thread.splits)
  have c1: "consistent ?s1" using consistent_step [OF c, of "Work i"] s1 by simp
  have t1: "teardown_order ?s1" by (rule teardown_order_thread_step [OF t])
  have s2: "step (Work i) ?s1 = ?s2" using a1 by (simp add: step_def)
  have a2: "owner ?s2 = Joining i"
    and w2: "worker_m (workers_m ?s2 ! i) = Finished"
    using join_step [OF c1 t1 a1] w1 by auto
  have e: "exec [Work i, Work i] s = ?s2" by (simp add: s1 s2)
  have "owner (step Destroy ?s2) = Deleting (Suc i)"
    using a2 w2 by (simp add: step_def destroy_step_def Let_def joinable_def)
  then show ?thesis using a2 w2 s1 s2 by simp
qed

lemma join_waits:
  assumes t: "teardown_order s" and o: "owner s = Joining i"
    and w: "worker_m (workers_m s ! i) \<noteq> Finished"
  shows "step Destroy s = s"
proof -
  have "stopping (workers_m s ! i)"
    using t o by (auto simp: teardown_order_def)
  then have "joinable (workers_m s ! i)"
    by (auto simp: stopping_def joinable_def)
  then show ?thesis
    using o w by (simp add: step_def destroy_step_def Let_def)
qed

text \<open>The destructor runs to its end when every worker gets two steps after its stop.\<close>

lemma delete_loop_ends:
  assumes c: "consistent s" and t: "teardown_order s"
    and o: "owner s = Deleting i" and n: "length (workers_m s) = n"
  shows "owner (exec (concat (map (\<lambda>k. [Destroy, Work k, Work k, Destroy]) [i ..< n])) s)
           = Deleting n"
  using c t o n
proof (induction "n - i" arbitrary: i s)
  case 0
  then have "i \<le> length (workers_m s)"
    by (auto simp: teardown_order_def)
  then show ?case using 0 by simp
next
  case (Suc d)
  then have il: "i < n" by simp
  let ?s1 = "step Destroy s"
  have o1: "owner ?s1 = Joining i"
    using Suc.prems il by (simp add: step_def destroy_step_def)
  have c1: "consistent ?s1" by (rule consistent_step [OF Suc.prems(1)])
  have t1: "teardown_order ?s1" by (rule teardown_order_step [OF Suc.prems(2)])
  let ?s2 = "exec [Work i, Work i, Destroy] ?s1"
  have o2: "owner ?s2 = Deleting (Suc i)"
    using join_returns [OF c1 t1 o1] by simp
  have c2: "consistent ?s2" by (rule consistent_exec [OF c1])
  have t2: "teardown_order ?s2" by (rule teardown_order_exec [OF t1])
  have n2: "length (workers_m ?s2) = n"
    using Suc.prems(4) by (simp add: length_workers_step)
  have "owner (exec (concat (map (\<lambda>k. [Destroy, Work k, Work k, Destroy]) [Suc i ..< n])) ?s2)
           = Deleting n"
    using Suc.hyps(1) [of "Suc i" ?s2] Suc.hyps(2) c2 t2 o2 n2 by simp
  then show ?case
    using il by (simp add: upt_conv_Cons)
qed

lemma exec_append: "exec (as @ bs) s = exec bs (exec as s)"
  by (induction as arbitrary: s) simp_all

lemma destructor_ends:
  assumes c: "consistent s" and t: "teardown_order s"
    and o: "owner s = Alive" and n: "length (workers_m s) = n"
  shows "owner (exec (Destroy # concat (map (\<lambda>k. [Destroy, Work k, Work k, Destroy]) [0 ..< n])
            @ [Destroy]) s) = Destroyed"
proof -
  let ?s1 = "step Destroy s"
  let ?mid = "concat (map (\<lambda>k. [Destroy, Work k, Work k, Destroy]) [0 ..< n])"
  have o1: "owner ?s1 = Deleting 0"
    using o by (simp add: step_def destroy_step_def)
  have c1: "consistent ?s1" by (rule consistent_step [OF c])
  have t1: "teardown_order ?s1" by (rule teardown_order_step [OF t])
  have n1: "length (workers_m ?s1) = n" using n by (simp add: length_workers_step)
  have o2: "owner (exec ?mid ?s1) = Deleting n"
    by (rule delete_loop_ends [OF c1 t1 o1 n1])
  have n2: "length (workers_m (exec ?mid ?s1)) = n"
  proof -
    have "length (workers_m (exec as s)) = length (workers_m s)" for as and s :: "'a task_pool"
      by (induction as arbitrary: s) (simp_all add: length_workers_step)
    then show ?thesis using n1 by simp
  qed
  have "owner (step Destroy (exec ?mid ?s1)) = Destroyed"
    using o2 n2 by (simp add: step_def destroy_step_def task_queue_dtor_eq)
  then show ?thesis
    by (simp add: exec_append)
qed

lemma list_all_take_nth:
  "i \<le> length ws \<Longrightarrow> (\<And>k. k < i \<Longrightarrow> P (ws ! k)) \<Longrightarrow> list_all P (take i ws)"
  by (simp add: list_all_length)

lemma list_all_drop_nth:
  "(\<And>k. i \<le> k \<Longrightarrow> k < length ws \<Longrightarrow> P (ws ! k)) \<Longrightarrow> list_all P (drop i ws)"
  by (cases "i \<le> length ws") (simp_all add: list_all_length)

subsection \<open>Evaluating concrete runs\<close>

lemmas pool_eval =
  step_def submit_def enqueue_def thread_step_def dequeue_def wait_pred_def invoke_def
  call_packaged_def set_worker_def load_def store_def notify_one_def notify_all_def Let_def
  task_pool_ctor_def task_queue_ctor_def start_def task_worker_ctor_def clear_def
  invalidate_def destroy_step_def stop_store_def joinable_def LOG_ERROR_def
  destroy_function_def abandon_def task_queue_dtor_def outcome_def


section \<open>The claims\<close>



text \<open>
  C2. The queue is first in, first out. After a batch of \<^verbatim>\<open>enqueue\<close> calls on a valid
  queue, as many \<^verbatim>\<open>dequeue\<close> calls as there are units all succeed and return the units
  that were there before and then the new ones, in the order of enqueueing, and the new
  packaged tasks hold the callables in that order. For any interleaving of operations
  without \<^verbatim>\<open>clear\<close>, the units taken so far followed by the units still queued are the
  units that were there at the start followed by all units enqueued since. In a pool with
  one worker, as long as nobody clears the queue, the tasks that have run are at every
  moment the first ones submitted, none left out; and whatever is done to the queue, a
  task that has not run when a task submitted after it has run will never run: no task
  runs after a later one.
\<close>

theorem fifo_order:
  "(valid_m q \<and> length touts = length (queue_m q) + length fcs \<longrightarrow>
      results (dequeue_ops touts) (run_ops (enqueue_ops fcs) (q, h :: 'v heap))
        = map (Dequeued (Returned True))
            (queue_m q @ map Some [length h ..< length h + length fcs])
      \<and> map stored (drop (length h) (snd (run_ops (enqueue_ops fcs) (q, h)))) = map fst fcs)
   \<and> (Clear \<notin> set ops \<longrightarrow>
        taken (results ops (q, h)) @ queue_m (fst (run_ops ops (q, h)))
          = queue_m q @ map Some [length h ..< length (snd (run_ops ops (q, h)))])
   \<and> (Call_clear \<notin> set as \<and> u < v \<and> v < length (heap (exec as (task_pool_ctor 1 :: 'v task_pool)))
        \<and> has_run (heap (exec as (task_pool_ctor 1 :: 'v task_pool)) ! v) \<longrightarrow>
        has_run (heap (exec as (task_pool_ctor 1 :: 'v task_pool)) ! u))
   \<and> (u < v \<and> v < length (heap (exec as (task_pool_ctor 1 :: 'v task_pool)))
        \<and> has_run (heap (exec as (task_pool_ctor 1 :: 'v task_pool)) ! v)
        \<and> \<not> has_run (heap (exec as (task_pool_ctor 1 :: 'v task_pool)) ! u) \<longrightarrow>
        \<not> has_run (heap (exec as' (exec as (task_pool_ctor 1 :: 'v task_pool))) ! u))"
proof -
  have a: "results (dequeue_ops touts) (run_ops (enqueue_ops fcs) (q, h))
        = map (Dequeued (Returned True))
            (queue_m q @ map Some [length h ..< length h + length fcs])
      \<and> map stored (drop (length h) (snd (run_ops (enqueue_ops fcs) (q, h)))) = map fst fcs"
    if v: "valid_m q" and l: "length touts = length (queue_m q) + length fcs"
  proof -
    obtain q' h' where r: "run_ops (enqueue_ops fcs) (q, h) = (q', h')"
      by (cases "run_ops (enqueue_ops fcs) (q, h)")
    have q': "valid_m q'" "queue_m q' = queue_m q @ map Some [length h ..< length h + length fcs]"
      and h': "h' = h @ map (\<lambda>(f, c). \<lparr>stored = f, state = Not_ready\<rparr>) fcs"
      using run_enqueue_ops [of fcs q h] r v by simp_all
    have "results (dequeue_ops touts) (q', h')
            = map (Dequeued (Returned True)) (take (length touts) (queue_m q'))"
      using q' l by (intro results_dequeue_ops) simp_all
    moreover have "map stored (drop (length h) h') = map fst fcs"
      unfolding h' by (induction fcs) auto
    ultimately show ?thesis
      using r q' l by simp
  qed
  have c: "has_run (heap (exec as (task_pool_ctor 1 :: 'v task_pool)) ! u)"
    if nc: "Call_clear \<notin> set as" and uv: "u < v"
      and vl: "v < length (heap (exec as (task_pool_ctor 1 :: 'v task_pool)))"
      and vr: "has_run (heap (exec as (task_pool_ctor 1 :: 'v task_pool)) ! v)"
  proof -
    let ?s = "exec as (task_pool_ctor 1 :: 'v task_pool)"
    obtain k where "run_prefix ?s k"
      using run_prefix_reachable [OF nc] by auto
    then have k: "\<forall>u < length (heap ?s). has_run (heap ?s ! u) = (u < k)"
      by (simp add: run_prefix_def)
    have "v < k" using k vl vr by blast
    then show ?thesis using k uv vl by simp
  qed
  have d: "u < v \<and> v < length (heap (exec as (task_pool_ctor 1 :: 'v task_pool)))
        \<and> has_run (heap (exec as (task_pool_ctor 1 :: 'v task_pool)) ! v)
        \<and> \<not> has_run (heap (exec as (task_pool_ctor 1 :: 'v task_pool)) ! u) \<longrightarrow>
        \<not> has_run (heap (exec as' (exec as (task_pool_ctor 1 :: 'v task_pool))) ! u)"
    using overtaken_never_runs [of u v as as'] by simp
  show ?thesis
    using a c d fifo_conservation [of ops q h] by blast
qed

text \<open>
  C2 at a concrete run: two units enqueued and dequeued in order, and two tasks submitted
  to a pool with one worker, where the second has run and so has the first.
\<close>

theorem fifo_order_witness:
  "results (dequeue_ops [(0, None), (1, None)])
      (run_ops (enqueue_ops [(Returns (10::int), 0), (Throws Other_exception, 0)])
         (task_queue_ctor, []))
     = [Dequeued (Returned True) (Some 0), Dequeued (Returned True) (Some 1)]
   \<and> has_run (heap (exec [Submit (Returns (10::int)) 0, Submit (Returns 20) 0,
         Work 0, Work 0, Work 0, Work 0, Work 0, Work 0] (task_pool_ctor 1)) ! 0)"
proof -
  let ?as = "[Submit (Returns (10::int)) 0, Submit (Returns 20) 0,
         Work 0, Work 0, Work 0, Work 0, Work 0, Work 0]"
  have p: "valid_m task_queue_ctor
           \<and> length [(0::nat, None :: function_t), (1, None)]
               = length (queue_m task_queue_ctor)
                 + length [(Returns (10::int), 0::nat), (Throws Other_exception, 0)]"
    by (simp add: task_queue_ctor_def)
  have e: "map (Dequeued (Returned True))
            (queue_m task_queue_ctor @ map Some [length ([] :: int heap) ..<
               length ([] :: int heap)
               + length [(Returns (10::int), 0::nat), (Throws Other_exception, 0)]])
           = [Dequeued (Returned True) (Some 0), Dequeued (Returned True) (Some 1)]"
    by (simp add: task_queue_ctor_def upt_conv_Cons)
  have r: "Call_clear \<notin> set ?as \<and> (0::nat) < 1
           \<and> 1 < length (heap (exec ?as (task_pool_ctor 1)))
           \<and> has_run (heap (exec ?as (task_pool_ctor 1)) ! 1)"
    by (simp add: pool_eval has_run_def)
  show ?thesis
    using p r fifo_order [where q = task_queue_ctor and h = "[] :: int heap"
        and touts = "[(0, None), (1, None)]"
        and fcs = "[(Returns (10::int), 0), (Throws Other_exception, 0)]"
        and ops = "[]" and as = ?as and as' = "[]" and u = 0 and v = 1]
    unfolding e by blast
qed

text \<open>
  C3, evaluated. A task that throws \<^verbatim>\<open>std::runtime_error("boom")\<close> and then a task that
  returns 7 are submitted to a pool with one worker, and the worker takes six steps. The
  exception is in the first task's shared state, the second task's value is in its
  shared state, and the worker is back at the head of its loop: it has not terminated.
  But nothing has been written to the log or to \<^verbatim>\<open>stderr\<close>: the packaged task stores
  the exception and returns normally, so the handler of the worker never runs. This holds
  for every pool and every run: both sinks stay empty, no exception leaves a thread
  function, and every shared state is not ready, a broken promise, or what its callable
  produces.
\<close>

theorem throwing_task_not_reported:
  "map state (heap (exec [Submit (Throws (Std_exception ''boom'')) 0, Submit (Returns (7::int)) 0,
       Work 0, Work 0, Work 0, Work 0, Work 0, Work 0] (task_pool_ctor 1)))
     = [Has_exception (Std_exception ''boom''), Has_value 7]
   \<and> map worker_m (workers_m (exec [Submit (Throws (Std_exception ''boom'')) 0,
       Submit (Returns (7::int)) 0, Work 0, Work 0, Work 0, Work 0, Work 0, Work 0]
       (task_pool_ctor 1))) = [Loop_head]
   \<and> log (exec [Submit (Throws (Std_exception ''boom'')) 0, Submit (Returns (7::int)) 0,
       Work 0, Work 0, Work 0, Work 0, Work 0, Work 0] (task_pool_ctor 1)) = []
   \<and> stderr (exec [Submit (Throws (Std_exception ''boom'')) 0, Submit (Returns (7::int)) 0,
       Work 0, Work 0, Work 0, Work 0, Work 0, Work 0] (task_pool_ctor 1)) = []
   \<and> log (exec as (task_pool_ctor n)) = []
   \<and> stderr (exec as (task_pool_ctor n)) = []
   \<and> owner (exec as (task_pool_ctor n)) \<noteq> Aborted
   \<and> list_all right_state (heap (exec as (task_pool_ctor n)))"
proof -
  have "log (exec as (task_pool_ctor n)) = [] \<and> stderr (exec as (task_pool_ctor n)) = []
        \<and> owner (exec as (task_pool_ctor n)) \<noteq> Aborted"
    using consistent_reachable [of as n] by (simp add: consistent_def)
  then show ?thesis
    using right_reachable [of as n] by (simp add: pool_eval)
qed

text \<open>
  C4. \<^verbatim>\<open>invalidate\<close> is idempotent: a second call leaves the queue exactly as the first
  call left it (the flag is false, the wait set is already empty, so nobody is notified
  twice), and it cannot fail: it is a total function without an error result.
\<close>

theorem invalidate_idempotent:
  "invalidate (invalidate q) = invalidate q
   \<and> \<not> valid_m (invalidate q)
   \<and> condition_m (invalidate q) = []
   \<and> run_ops [Invalidate, Invalidate] (q, h) = run_ops [Invalidate] (q, h)
   \<and> step Call_invalidate (step Call_invalidate s) = step Call_invalidate s"
  by (simp add: invalidate_def notify_all_def step_def)

text \<open>
  C5, as amended. \<^verbatim>\<open>enqueue\<close> never fails: it appends the unit at the back of the queue
  and returns a fresh future whose shared state is not ready, whatever the state of the
  queue. On a queue that is already invalid the unit is never consumed: no later
  \<^verbatim>\<open>dequeue\<close> returns true, no worker ever holds the unit, and its callable never runs.
  The future does not stay unresolved for ever: in every later state of the system it is
  not ready if the unit is still in the queue, and holds a broken promise if the unit has
  been discarded.
\<close>

theorem enqueue_never_fails:
  "enqueue f c (q, h :: 'v heap)
     = (length h,
        q\<lparr>queue_m := queue_m q @ [Some (length h)],
          condition_m := notify_one c (condition_m q)\<rparr>,
        h @ [\<lparr>stored = f, state = Not_ready\<rparr>])
   \<and> (\<not> valid_m q \<longrightarrow> taken (results ops (snd (enqueue f c (q, h)))) = [])
   \<and> (\<not> valid_m (pool_queue_m (exec as0 (task_pool_ctor n :: 'v task_pool))) \<longrightarrow>
        fst (submit f c (exec as0 (task_pool_ctor n))) = length (heap (exec as0 (task_pool_ctor n)))
        \<and> length (heap (exec as0 (task_pool_ctor n)))
            < length (heap (exec as (snd (submit f c (exec as0 (task_pool_ctor n))))))
        \<and> \<not> has_run (heap (exec as (snd (submit f c (exec as0 (task_pool_ctor n)))))
                   ! length (heap (exec as0 (task_pool_ctor n))))
        \<and> (Some (length (heap (exec as0 (task_pool_ctor n))))
              \<in> set (queue_m (pool_queue_m (exec as (snd (submit f c (exec as0 (task_pool_ctor n)))))))
            \<longrightarrow> state (heap (exec as (snd (submit f c (exec as0 (task_pool_ctor n)))))
                   ! length (heap (exec as0 (task_pool_ctor n)))) = Not_ready)
        \<and> (Some (length (heap (exec as0 (task_pool_ctor n))))
              \<notin> set (queue_m (pool_queue_m (exec as (snd (submit f c (exec as0 (task_pool_ctor n)))))))
            \<longrightarrow> state (heap (exec as (snd (submit f c (exec as0 (task_pool_ctor n)))))
                   ! length (heap (exec as0 (task_pool_ctor n)))) = Broken_promise)
        \<and> (\<forall>i. \<not> holds (exec as (snd (submit f c (exec as0 (task_pool_ctor n))))) i
                    (Some (length (heap (exec as0 (task_pool_ctor n)))))))"
proof -
  let ?s = "exec as0 (task_pool_ctor n) :: 'v task_pool"
  let ?u = "length (heap ?s)"
  let ?s1 = "snd (submit f c ?s)"
  have a: "enqueue f c (q, h)
     = (length h,
        q\<lparr>queue_m := queue_m q @ [Some (length h)],
          condition_m := notify_one c (condition_m q)\<rparr>,
        h @ [\<lparr>stored = f, state = Not_ready\<rparr>])"
    by (simp add: enqueue_def Let_def)
  have b: "\<not> valid_m q \<longrightarrow> taken (results ops (snd (enqueue f c (q, h)))) = []"
    unfolding a by (simp add: results_invalid)
  have cs: "consistent ?s" by (rule consistent_reachable)
  have cs1: "consistent (exec as ?s1)"
    by (rule consistent_exec [OF consistent_submit [OF cs]])
  have os1: "owned (exec as ?s1)"
    by (rule owned_exec [OF consistent_submit [OF cs] owned_submit [OF owned_reachable]])
  have q: "Some ?u \<in> set (queue_m (pool_queue_m (exec as ?s1)))
           \<longrightarrow> state (heap (exec as ?s1) ! ?u) = Not_ready"
    using consistentD(2) [OF cs1, of "Some ?u"] by (auto simp: pending_def)
  have c: "never_run ?u (exec as ?s1) \<and> fst (submit f c ?s) = ?u"
    if inv: "\<not> valid_m (pool_queue_m ?s)"
  proof -
    have nh: "\<not> holds ?s i (Some ?u)" for i
      using consistentD(3) [OF cs, of i "Some ?u"] by (auto simp: pending_def)
    have "never_run ?u ?s1"
      using inv nh
      by (simp add: never_run_def submit_def enqueue_def Let_def holds_def has_run_def)
    moreover have "consistent ?s1"
      using cs by (rule consistent_submit)
    ultimately have "never_run ?u (exec as ?s1)"
      by (simp add: never_run_exec)
    then show ?thesis by (simp add: submit_def enqueue_def Let_def)
  qed
  have d: "state (heap (exec as ?s1) ! ?u) = Broken_promise"
    if inv: "\<not> valid_m (pool_queue_m ?s)"
      and nq: "Some ?u \<notin> set (queue_m (pool_queue_m (exec as ?s1)))"
  proof -
    have nr: "never_run ?u (exec as ?s1)" using c [OF inv] by simp
    then have ul: "?u < length (heap (exec as ?s1))"
      and nh: "\<And>i. \<not> holds (exec as ?s1) i (Some ?u)"
      and nrun: "\<not> has_run (heap (exec as ?s1) ! ?u)"
      by (auto simp: never_run_def)
    have "state (heap (exec as ?s1) ! ?u) \<noteq> Not_ready"
      using os1 ul nh nq by (auto simp: owned_def)
    then show ?thesis
      using nrun not_run_cases [of "heap (exec as ?s1) ! ?u"] by auto
  qed
  show ?thesis
    using a b c q d by (auto simp: never_run_def)
qed

text \<open>
  C5 at a concrete run: a unit enqueued on an invalidated queue is not handed out by two
  \<^verbatim>\<open>dequeue\<close> calls, and a task submitted to a pool with an invalidated queue has not run
  after four steps of the worker.
\<close>

theorem enqueue_never_fails_witness:
  "taken (results [Dequeue 0 None, Dequeue 1 None]
      (snd (enqueue (Returns (5::int)) 0 (invalidate task_queue_ctor, [])))) = []
   \<and> \<not> has_run (heap (exec [Work 0, Work 0, Work 0, Work 0]
         (snd (submit (Returns (5::int)) 0 (exec [Call_invalidate] (task_pool_ctor (Suc 0))))))
       ! length (heap (exec [Call_invalidate] (task_pool_ctor (Suc 0) :: int task_pool))))"
proof -
  have p: "\<not> valid_m (invalidate task_queue_ctor)"
    by (simp add: invalidate_def)
  have p': "\<not> valid_m (pool_queue_m (exec [Call_invalidate] (task_pool_ctor (Suc 0) :: int task_pool)))"
    by (simp add: pool_eval)
  show ?thesis
    using p p' enqueue_never_fails [where f = "Returns (5::int)" and c = 0
        and q = "invalidate task_queue_ctor" and h = "[]" and ops = "[Dequeue 0 None, Dequeue 1 None]"
        and ?as0.0 = "[Call_invalidate]" and n = "Suc 0" and as = "[Work 0, Work 0, Work 0, Work 0]"]
    by blast
qed

text \<open>
  C5 as stated fails: the future of a unit enqueued on an invalid queue does not stay
  unresolved. After \<^verbatim>\<open>clear\<close>, and after the destruction of the pool, its shared state
  is ready and holds a broken promise.
\<close>

theorem unconsumed_handle_resolves:
  "map state (snd (run_ops [Invalidate, Enqueue (Returns (5::int)) 0] (task_queue_ctor, [])))
     = [Not_ready]
   \<and> map state (snd (run_ops [Invalidate, Enqueue (Returns (5::int)) 0, Clear]
        (task_queue_ctor, []))) = [Broken_promise]
   \<and> map state (snd (task_queue_dtor
        (run_ops [Invalidate, Enqueue (Returns (5::int)) 0] (task_queue_ctor, []))))
     = [Broken_promise]
   \<and> state (heap (exec [Call_invalidate, Submit (Returns (5::int)) 0, Call_clear]
      (task_pool_ctor (Suc 0))) ! 0) = Broken_promise
   \<and> state (heap (exec [Call_invalidate, Submit (Returns (5::int)) 0,
        Destroy, Destroy, Work 0, Destroy, Destroy] (task_pool_ctor (Suc 0))) ! 0) = Broken_promise
   \<and> owner (exec [Call_invalidate, Submit (Returns (5::int)) 0,
        Destroy, Destroy, Work 0, Destroy, Destroy] (task_pool_ctor (Suc 0))) = Destroyed"
  by (simp add: pool_eval)

text \<open>
  C6, as amended. \<^verbatim>\<open>clear\<close> empties the queue and the wait set and leaves both validity
  members as they are. It runs nothing: the heap keeps its length and its callables, and
  a packaged task has run afterwards only if it had run before. But the future of a
  cleared unit does not stay unresolved: \<^verbatim>\<open>pop\<close> destroys the unit and with it the
  packaged task, whose shared state becomes ready with a broken promise. In a running
  system this state is final: after \<^verbatim>\<open>clear\<close> every unit that was queued holds a broken
  promise in every later state, and has not run.
\<close>

theorem clear_discards_pending:
  "queue_m (fst (clear (q, h))) = [] \<and> empty (fst (clear (q, h)))
   \<and> valid_m (fst (clear (q, h))) = valid_m q \<and> valid (fst (clear (q, h))) = valid q
   \<and> condition_m (fst (clear (q, h))) = []
   \<and> length (snd (clear (q, h))) = length h
   \<and> (u < length h \<longrightarrow>
        has_run (snd (clear (q, h)) ! u) = has_run (h ! u)
        \<and> stored (snd (clear (q, h)) ! u) = stored (h ! u)
        \<and> (Some u \<in> set (queue_m q) \<and> state (h ! u) = Not_ready \<longrightarrow>
             state (snd (clear (q, h)) ! u) = Broken_promise))
   \<and> (Some v \<in> set (queue_m (pool_queue_m (exec as0 (task_pool_ctor n :: 'v task_pool)))) \<longrightarrow>
        v < length (heap (exec as (step Call_clear (exec as0 (task_pool_ctor n)))))
        \<and> state (heap (exec as (step Call_clear (exec as0 (task_pool_ctor n)))) ! v)
            = Broken_promise
        \<and> \<not> has_run (heap (exec as (step Call_clear (exec as0 (task_pool_ctor n)))) ! v))"
proof -
  let ?s = "exec as0 (task_pool_ctor n) :: 'v task_pool"
  have a: "queue_m (fst (clear (q, h))) = [] \<and> empty (fst (clear (q, h)))
   \<and> valid_m (fst (clear (q, h))) = valid_m q \<and> valid (fst (clear (q, h))) = valid q
   \<and> condition_m (fst (clear (q, h))) = []
   \<and> length (snd (clear (q, h))) = length h"
    by (simp add: clear_eq empty_def)
  have b: "u < length h \<longrightarrow>
        has_run (snd (clear (q, h)) ! u) = has_run (h ! u)
        \<and> stored (snd (clear (q, h)) ! u) = stored (h ! u)
        \<and> (Some u \<in> set (queue_m q) \<and> state (h ! u) = Not_ready \<longrightarrow>
             state (snd (clear (q, h)) ! u) = Broken_promise)"
    by (simp add: clear_eq nth_clear_loop abandon_not_ready)
  have c: "v < length (heap (exec as (step Call_clear ?s)))
        \<and> state (heap (exec as (step Call_clear ?s)) ! v) = Broken_promise"
    if v: "Some v \<in> set (queue_m (pool_queue_m ?s))"
  proof -
    have cs: "consistent ?s" by (rule consistent_reachable)
    have p: "v < length (heap ?s)" "state (heap ?s ! v) = Not_ready"
      using consistentD(2) [OF cs v] by (auto simp: pending_def)
    have "owner ?s \<noteq> Destroyed"
      using destroyed_empty_reachable [of as0 n] v by auto
    moreover have "owner ?s \<noteq> Aborted"
      by (rule consistentD(9) [OF cs])
    ultimately have st: "step Call_clear ?s
        = ?s\<lparr>pool_queue_m := fst (clear (pool_queue_m ?s, heap ?s)),
             heap := snd (clear (pool_queue_m ?s, heap ?s))\<rparr>"
      by (simp add: step_def split: prod.splits)
    have "v < length (heap (step Call_clear ?s))
          \<and> state (heap (step Call_clear ?s) ! v) = Broken_promise"
      unfolding st using p v by (simp add: clear_eq nth_clear_loop abandon_not_ready)
    then show ?thesis
      using ready_forever [of v "step Call_clear ?s" as] by simp
  qed
  show ?thesis
    using a b c by (auto simp: has_run_def)
qed

text \<open>
  C6 at a concrete run: a queue with one pending unit is cleared, and in a pool with one
  worker the second of two submitted tasks, cleared before the worker came to it, still
  holds its broken promise after more work has been submitted and done.
\<close>

theorem clear_discards_pending_witness:
  "queue_m (fst (clear (task_queue_ctor\<lparr>queue_m := [Some 0]\<rparr>,
        [\<lparr>stored = Returns (1::int), state = Not_ready\<rparr>]))) = []
   \<and> state (snd (clear (task_queue_ctor\<lparr>queue_m := [Some 0]\<rparr>,
        [\<lparr>stored = Returns (1::int), state = Not_ready\<rparr>])) ! 0) = Broken_promise
   \<and> state (heap (exec [Work 0, Work 0, Work 0, Submit (Returns 3) 0, Work 0, Work 0, Work 0]
         (step Call_clear (exec [Submit (Returns 1) 0, Submit (Returns 2) 0]
            (task_pool_ctor (Suc 0) :: int task_pool)))) ! 1) = Broken_promise"
proof -
  have p: "Some 1 \<in> set (queue_m (pool_queue_m (exec [Submit (Returns 1) 0, Submit (Returns 2) 0]
            (task_pool_ctor (Suc 0) :: int task_pool))))"
    by (simp add: pool_eval)
  have v: "(0::nat) < length [\<lparr>stored = Returns (1::int), state = Not_ready\<rparr>]
           \<and> Some 0 \<in> set (queue_m (task_queue_ctor\<lparr>queue_m := [Some 0]\<rparr>))
           \<and> state ([\<lparr>stored = Returns (1::int), state = Not_ready\<rparr>] ! 0) = Not_ready"
    by simp
  show ?thesis
    using p v clear_discards_pending [where q = "task_queue_ctor\<lparr>queue_m := [Some 0]\<rparr>"
        and h = "[\<lparr>stored = Returns (1::int), state = Not_ready\<rparr>]" and u = 0 and v = 1
        and ?as0.0 = "[Submit (Returns 1) 0, Submit (Returns 2) 0]" and n = "Suc 0"
        and as = "[Work 0, Work 0, Work 0, Submit (Returns 3) 0, Work 0, Work 0, Work 0]"]
    by blast
qed

text \<open>
  C6 as stated fails: the futures of cleared units resolve at once. After two
  \<^verbatim>\<open>enqueue\<close> calls and a \<^verbatim>\<open>clear\<close> both shared states hold a broken promise.
\<close>

theorem cleared_handle_resolves:
  "map state (snd (run_ops [Enqueue (Returns (1::int)) 0, Enqueue (Throws Other_exception) 0, Clear]
      (task_queue_ctor, []))) = [Broken_promise, Broken_promise]
   \<and> state (heap (exec [Submit (Returns (1::int)) 0, Call_clear] (task_pool_ctor (Suc 0))) ! 0)
       \<noteq> Not_ready"
  by (simp add: pool_eval)

text \<open>
  C7. Invalidation cannot be undone. From an invalid queue, every sequence of the public
  operations leaves \<^verbatim>\<open>valid_\<close> false, and \<^verbatim>\<open>is_valid\<close> called after it returns false. The
  same holds for the queue of a running system under every interleaving of submissions,
  worker steps, wakeups, \<^verbatim>\<open>clear\<close>, \<^verbatim>\<open>invalidate\<close> and the destructor.
\<close>

theorem invalidation_irreversible:
  "(\<not> valid_m q \<longrightarrow>
      \<not> valid_m (fst (run_ops ops (q, h)))
      \<and> fst (run_op Is_valid (run_ops ops (q, h))) = Bool False)
   \<and> (\<not> valid_m (pool_queue_m s) \<longrightarrow> \<not> is_valid (pool_queue_m (exec as s)))"
proof -
  have "\<not> valid_m q \<longrightarrow> fst (run_op Is_valid (run_ops ops (q, h))) = Bool False"
    using run_ops_keeps_invalid [of q ops h] by (cases "run_ops ops (q, h)") (simp add: is_valid_def)
  then show ?thesis
    using run_ops_keeps_invalid [of q ops h] exec_keeps_invalid [of s as] by (simp add: is_valid_def)
qed

text \<open>
  C7 at a concrete run: an invalidated queue stays invalid under one call of each public
  operation, and the queue of a pool stays invalid under a mixed run.
\<close>

theorem invalidation_irreversible_witness:
  "\<not> valid_m (fst (run_ops [Enqueue (Returns (1::int)) 0, Dequeue 0 None, Clear, Invalidate,
        Empty, Is_valid] (invalidate task_queue_ctor, [])))
   \<and> \<not> is_valid (pool_queue_m (exec [Submit (Returns (1::int)) 0, Work 0, Call_clear, Wake 0,
        Destroy] (step Call_invalidate (task_pool_ctor (Suc 0)))))"
proof -
  have p: "\<not> valid_m (invalidate task_queue_ctor)"
    "\<not> valid_m (pool_queue_m (step Call_invalidate (task_pool_ctor (Suc 0) :: int task_pool)))"
    by (simp_all add: invalidate_def step_def task_pool_ctor_def)
  show ?thesis
    using p invalidation_irreversible [where q = "invalidate task_queue_ctor" and h = "[]"
      and ops = "[Enqueue (Returns (1::int)) 0, Dequeue 0 None, Clear, Invalidate, Empty, Is_valid]"
      and s = "step Call_invalidate (task_pool_ctor (Suc 0))"
      and as = "[Submit (Returns (1::int)) 0, Work 0, Call_clear, Wake 0, Destroy]"]
    by blast
qed

text \<open>
  C8. The destructor of the pool invalidates the queue first, and only then stops and
  joins the workers, one after the other. In every state a pool of \<open>n\<close> workers can reach:
  if some worker has its \<^verbatim>\<open>stop_\<close> set, the queue is invalid; and if the destructor has
  begun, the queue is invalid. The first step of the destructor invalidates the queue and
  empties the wait set, which releases every blocked worker, and touches no worker.
  As long as the destructor has not begun, no worker has its \<^verbatim>\<open>stop_\<close> set and every
  thread is joinable. When the destructor is about to delete worker \<open>i\<close>, the workers
  before \<open>i\<close> have their \<^verbatim>\<open>stop_\<close> set and have been joined, and the workers from \<open>i\<close> on
  are untouched. While the destructor is in \<^verbatim>\<open>stop\<close> of worker \<open>i\<close>, the \<^verbatim>\<open>stop_\<close> of that
  worker is set and its thread is still joinable, the workers before it have been joined
  and the workers after it are untouched; \<^verbatim>\<open>join\<close> does not return as long as the thread
  function has not returned; after two steps of the thread it has returned, and the
  destructor goes on to the next worker. When the pool is destroyed every worker has its
  \<^verbatim>\<open>stop_\<close> set and has been joined, and the queue is empty. And from every state in which
  the destructor has not begun, it runs to its end when every worker gets two steps after
  its \<^verbatim>\<open>stop_\<close> has been set: no worker stays blocked.
\<close>

theorem teardown_invalidates_first:
  "(list_ex stop_m (workers_m (exec as (task_pool_ctor n))) \<longrightarrow>
      \<not> valid_m (pool_queue_m (exec as (task_pool_ctor n))))
   \<and> (owner (exec as (task_pool_ctor n)) \<noteq> Alive \<and> owner (exec as (task_pool_ctor n)) \<noteq> Aborted \<longrightarrow>
      \<not> valid_m (pool_queue_m (exec as (task_pool_ctor n))))
   \<and> (owner s = Alive \<longrightarrow>
        \<not> valid_m (pool_queue_m (step Destroy s))
        \<and> condition_m (pool_queue_m (step Destroy s)) = []
        \<and> workers_m (step Destroy s) = workers_m s
        \<and> owner (step Destroy s) = Deleting 0)
   \<and> length (workers_m (exec as (task_pool_ctor n))) = n
   \<and> (owner (exec as (task_pool_ctor n)) = Alive \<longrightarrow>
        list_all (\<lambda>w. \<not> stop_m w \<and> joinable w) (workers_m (exec as (task_pool_ctor n))))
   \<and> (owner (exec as (task_pool_ctor n)) = Deleting i \<longrightarrow>
        i \<le> n
        \<and> list_all (\<lambda>w. stop_m w \<and> worker_m w = Joined)
             (take i (workers_m (exec as (task_pool_ctor n))))
        \<and> list_all (\<lambda>w. \<not> stop_m w \<and> joinable w)
             (drop i (workers_m (exec as (task_pool_ctor n)))))
   \<and> (owner (exec as (task_pool_ctor n)) = Joining i \<longrightarrow>
        i < n
        \<and> list_all (\<lambda>w. stop_m w \<and> worker_m w = Joined)
             (take i (workers_m (exec as (task_pool_ctor n))))
        \<and> stop_m (workers_m (exec as (task_pool_ctor n)) ! i)
        \<and> joinable (workers_m (exec as (task_pool_ctor n)) ! i)
        \<and> list_all (\<lambda>w. \<not> stop_m w \<and> joinable w)
             (drop (Suc i) (workers_m (exec as (task_pool_ctor n))))
        \<and> (worker_m (workers_m (exec as (task_pool_ctor n)) ! i) \<noteq> Finished \<longrightarrow>
             step Destroy (exec as (task_pool_ctor n)) = exec as (task_pool_ctor n))
        \<and> worker_m (workers_m (exec [Work i, Work i] (exec as (task_pool_ctor n))) ! i) = Finished
        \<and> owner (exec [Work i, Work i, Destroy] (exec as (task_pool_ctor n))) = Deleting (Suc i))
   \<and> (owner (exec as (task_pool_ctor n)) = Destroyed \<longrightarrow>
        list_all (\<lambda>w. stop_m w \<and> worker_m w = Joined) (workers_m (exec as (task_pool_ctor n)))
        \<and> queue_m (pool_queue_m (exec as (task_pool_ctor n))) = [])
   \<and> (owner (exec as (task_pool_ctor n)) = Alive \<longrightarrow>
        owner (exec (Destroy # concat (map (\<lambda>k. [Destroy, Work k, Work k, Destroy]) [0 ..< n])
                 @ [Destroy]) (exec as (task_pool_ctor n))) = Destroyed)"
proof -
  let ?R = "exec as (task_pool_ctor n) :: 'a task_pool"
  have c: "consistent ?R" by (rule consistent_reachable)
  have t: "teardown_order ?R" by (rule teardown_order_reachable)
  have n: "length (workers_m ?R) = n" by (rule length_workers_reachable)
  have lj: "live w \<Longrightarrow> \<not> stop_m w \<and> joinable w" for w
    by (auto simp: live_def joinable_def)
  have sj: "stopping w \<Longrightarrow> stop_m w \<and> joinable w" for w
    by (auto simp: stopping_def joinable_def)
  have a: "owner s = Alive \<longrightarrow>
        \<not> valid_m (pool_queue_m (step Destroy s))
        \<and> condition_m (pool_queue_m (step Destroy s)) = []
        \<and> workers_m (step Destroy s) = workers_m s
        \<and> owner (step Destroy s) = Deleting 0"
    by (simp add: step_def destroy_step_def invalidate_def notify_all_def)
  have b: "(list_ex stop_m (workers_m ?R) \<longrightarrow> \<not> valid_m (pool_queue_m ?R))
     \<and> (owner ?R \<noteq> Alive \<and> owner ?R \<noteq> Aborted \<longrightarrow> \<not> valid_m (pool_queue_m ?R))"
    using stop_after_invalidate_reachable [of as n]
    by (auto simp: stop_after_invalidate_def)
  have al: "list_all (\<lambda>w. \<not> stop_m w \<and> joinable w) (workers_m ?R)" if "owner ?R = Alive"
    using t that lj by (auto simp: teardown_order_def list_all_length)
  have de: "i \<le> n
        \<and> list_all (\<lambda>w. stop_m w \<and> worker_m w = Joined) (take i (workers_m ?R))
        \<and> list_all (\<lambda>w. \<not> stop_m w \<and> joinable w) (drop i (workers_m ?R))"
    if o: "owner ?R = Deleting i"
  proof -
    have i: "i \<le> length (workers_m ?R)"
      and k: "\<And>k. k < length (workers_m ?R) \<Longrightarrow>
          (if k < i then stopped (workers_m ?R ! k) else live (workers_m ?R ! k))"
      using t o by (auto simp: teardown_order_def)
    have "list_all (\<lambda>w. stop_m w \<and> worker_m w = Joined) (take i (workers_m ?R))"
    proof (rule list_all_take_nth [OF i])
      fix k assume "k < i"
      then show "stop_m (workers_m ?R ! k) \<and> worker_m (workers_m ?R ! k) = Joined"
        using k [of k] i by (simp add: stopped_def)
    qed
    moreover have "list_all (\<lambda>w. \<not> stop_m w \<and> joinable w) (drop i (workers_m ?R))"
    proof (rule list_all_drop_nth)
      fix k assume "i \<le> k" "k < length (workers_m ?R)"
      then show "\<not> stop_m (workers_m ?R ! k) \<and> joinable (workers_m ?R ! k)"
        using k [of k] lj by simp
    qed
    ultimately show ?thesis using i n by simp
  qed
  have jo: "i < n
        \<and> list_all (\<lambda>w. stop_m w \<and> worker_m w = Joined) (take i (workers_m ?R))
        \<and> stop_m (workers_m ?R ! i) \<and> joinable (workers_m ?R ! i)
        \<and> list_all (\<lambda>w. \<not> stop_m w \<and> joinable w) (drop (Suc i) (workers_m ?R))
        \<and> (worker_m (workers_m ?R ! i) \<noteq> Finished \<longrightarrow> step Destroy ?R = ?R)
        \<and> worker_m (workers_m (exec [Work i, Work i] ?R) ! i) = Finished
        \<and> owner (exec [Work i, Work i, Destroy] ?R) = Deleting (Suc i)"
    if o: "owner ?R = Joining i"
  proof -
    have i: "i < length (workers_m ?R)"
      and k: "\<And>k. k < length (workers_m ?R) \<Longrightarrow>
          (if k < i then stopped (workers_m ?R ! k)
           else if k = i then stopping (workers_m ?R ! k) else live (workers_m ?R ! k))"
      using t o by (auto simp: teardown_order_def)
    have "list_all (\<lambda>w. stop_m w \<and> worker_m w = Joined) (take i (workers_m ?R))"
    proof (rule list_all_take_nth)
      show "i \<le> length (workers_m ?R)" using i by simp
    next
      fix k assume "k < i"
      then show "stop_m (workers_m ?R ! k) \<and> worker_m (workers_m ?R ! k) = Joined"
        using k [of k] i by (simp add: stopped_def)
    qed
    moreover have "list_all (\<lambda>w. \<not> stop_m w \<and> joinable w) (drop (Suc i) (workers_m ?R))"
    proof (rule list_all_drop_nth)
      fix k assume "Suc i \<le> k" "k < length (workers_m ?R)"
      then show "\<not> stop_m (workers_m ?R ! k) \<and> joinable (workers_m ?R ! k)"
        using k [of k] lj by simp
    qed
    moreover have "stop_m (workers_m ?R ! i) \<and> joinable (workers_m ?R ! i)"
      using k [of i] i sj by simp
    moreover have "worker_m (workers_m ?R ! i) \<noteq> Finished \<longrightarrow> step Destroy ?R = ?R"
      using join_waits [OF t o] by simp
    ultimately show ?thesis
      using i n join_returns [OF c t o] by simp
  qed
  have ds: "list_all (\<lambda>w. stop_m w \<and> worker_m w = Joined) (workers_m ?R)
        \<and> queue_m (pool_queue_m ?R) = []"
    if o: "owner ?R = Destroyed"
    using t o destroyed_empty_reachable [OF o]
    by (auto simp: teardown_order_def list_all_length stopped_def)
  have en: "owner (exec (Destroy # concat (map (\<lambda>k. [Destroy, Work k, Work k, Destroy]) [0 ..< n])
                 @ [Destroy]) ?R) = Destroyed"
    if o: "owner ?R = Alive"
    by (rule destructor_ends [OF c t o n])
  show ?thesis
    using a b n al de jo ds en by blast
qed

text \<open>
  C8 at concrete runs of a pool of two workers. With worker 0 blocked in \<^verbatim>\<open>dequeue\<close> and
  worker 1 at the head of its loop, two steps of the destructor set the \<^verbatim>\<open>stop_\<close> of
  worker 0 only; the queue is invalid; \<^verbatim>\<open>join\<close> waits; after two steps of worker 0 the
  destructor goes on to worker 1. And a run of the whole destructor leaves both workers
  stopped and joined.
\<close>

theorem teardown_invalidates_first_witness:
  "owner (exec [Work 0, Work 0, Work 1, Destroy, Destroy]
      (task_pool_ctor (Suc (Suc 0)) :: int task_pool)) = Joining 0
   \<and> list_ex stop_m (workers_m (exec [Work 0, Work 0, Work 1, Destroy, Destroy]
      (task_pool_ctor (Suc (Suc 0)) :: int task_pool)))
   \<and> \<not> valid_m (pool_queue_m (exec [Work 0, Work 0, Work 1, Destroy, Destroy]
      (task_pool_ctor (Suc (Suc 0)) :: int task_pool)))
   \<and> \<not> stop_m (workers_m (exec [Work 0, Work 0, Work 1, Destroy, Destroy]
      (task_pool_ctor (Suc (Suc 0)) :: int task_pool)) ! Suc 0)
   \<and> worker_m (workers_m (exec [Work 0, Work 0, Work 1, Destroy, Destroy]
      (task_pool_ctor (Suc (Suc 0)) :: int task_pool)) ! 0) \<noteq> Finished
   \<and> step Destroy (exec [Work 0, Work 0, Work 1, Destroy, Destroy]
        (task_pool_ctor (Suc (Suc 0)) :: int task_pool))
      = exec [Work 0, Work 0, Work 1, Destroy, Destroy] (task_pool_ctor (Suc (Suc 0)))
   \<and> owner (exec [Work 0, Work 0, Destroy] (exec [Work 0, Work 0, Work 1, Destroy, Destroy]
      (task_pool_ctor (Suc (Suc 0)) :: int task_pool))) = Deleting (Suc 0)
   \<and> owner (step Destroy (task_pool_ctor (Suc (Suc 0)) :: int task_pool)) = Deleting 0
   \<and> owner (exec [Submit (Returns 3) 0, Work 0, Work 0, Destroy, Destroy, Work 0, Work 0, Destroy,
        Destroy, Work 1, Work 1, Destroy, Destroy]
        (task_pool_ctor (Suc (Suc 0)) :: int task_pool)) = Destroyed
   \<and> list_all (\<lambda>w. stop_m w \<and> worker_m w = Joined)
       (workers_m (exec [Submit (Returns 3) 0, Work 0, Work 0, Destroy, Destroy, Work 0, Work 0,
          Destroy, Destroy, Work 1, Work 1, Destroy, Destroy]
          (task_pool_ctor (Suc (Suc 0)) :: int task_pool)))"
proof -
  let ?A = "[Work 0, Work 0, Work 1, Destroy, Destroy] :: int action list"
  let ?B = "[Submit (Returns 3) 0, Work 0, Work 0, Destroy, Destroy, Work 0, Work 0, Destroy,
        Destroy, Work 1, Work 1, Destroy, Destroy] :: int action list"
  let ?P = "task_pool_ctor (Suc (Suc 0)) :: int task_pool"
  have p1: "owner (exec ?A ?P) = Joining 0"
    by (simp add: pool_eval)
  have p2: "list_ex stop_m (workers_m (exec ?A ?P))"
    by (simp add: pool_eval)
  have p3: "worker_m (workers_m (exec ?A ?P) ! 0) \<noteq> Finished"
    by (simp add: pool_eval)
  have p4: "owner ?P = Alive"
    by (simp add: task_pool_ctor_def)
  have p5: "owner (exec ?B ?P) = Destroyed"
    by (simp add: pool_eval)
  note A = teardown_invalidates_first [where as = ?A and n = "Suc (Suc 0)" and s = ?P and i = 0]
  note B = teardown_invalidates_first [where as = ?B and n = "Suc (Suc 0)" and s = ?P and i = 0]
  have a1: "\<not> valid_m (pool_queue_m (exec ?A ?P))" using A p2 by blast
  have a2: "list_all (\<lambda>w. \<not> stop_m w \<and> joinable w) (drop (Suc 0) (workers_m (exec ?A ?P)))"
    using A p1 by blast
  have a3: "length (workers_m (exec ?A ?P)) = Suc (Suc 0)" using A by blast
  have a4: "\<not> stop_m (workers_m (exec ?A ?P) ! Suc 0)"
    using a2 a3 by (simp add: list_all_length)
  have a5: "step Destroy (exec ?A ?P) = exec ?A ?P" using A p1 p3 by blast
  have a6: "owner (exec [Work 0, Work 0, Destroy] (exec ?A ?P)) = Deleting (Suc 0)"
    using A p1 by blast
  have a7: "owner (step Destroy ?P) = Deleting 0" using A p4 by blast
  have b1: "list_all (\<lambda>w. stop_m w \<and> worker_m w = Joined) (workers_m (exec ?B ?P))"
    using B p5 by blast
  show ?thesis
    using p1 p2 p3 p5 a1 a4 a5 a6 a7 b1 by blast
qed

text \<open>
  C9. The member \<^verbatim>\<open>valid\<close> is vestigial. The constructor sets it to true. No operation
  reads it: run on a queue whose \<^verbatim>\<open>valid\<close> has been overwritten, an operation returns
  the same result and leaves the same queue and heap, \<^verbatim>\<open>valid\<close> apart. No operation
  writes it, so it is true after every sequence of operations and in every state of a
  running system. And what an operation returns is the same on two queues that agree on
  \<^verbatim>\<open>valid_\<close> and on the pending units.
\<close>

theorem valid_member_vestigial:
  "valid task_queue_ctor
   \<and> run_op x (q\<lparr>valid := b\<rparr>, h)
       = (case run_op x (q, h) of (r, q', h') \<Rightarrow> (r, q'\<lparr>valid := b\<rparr>, h'))
   \<and> valid (fst (snd (run_op x (q, h)))) = valid q
   \<and> valid (fst (run_ops ops (task_queue_ctor, h)))
   \<and> valid (pool_queue_m (exec as (task_pool_ctor n)))
   \<and> (valid_m q1 = valid_m q2 \<and> queue_m q1 = queue_m q2 \<longrightarrow>
        fst (run_op x (q1, h)) = fst (run_op x (q2, h)))"
proof -
  have a: "run_op x (q\<lparr>valid := b\<rparr>, h)
       = (case run_op x (q, h) of (r, q', h') \<Rightarrow> (r, q'\<lparr>valid := b\<rparr>, h'))"
    by (cases x)
      (simp_all add: enqueue_def dequeue_def wait_pred_def clear_eq invalidate_def empty_def
        is_valid_def Let_def)
  have b: "valid (fst (snd (run_op x (q, h)))) = valid q" for x q and h :: "'a heap"
    by (cases x)
      (simp_all add: enqueue_def dequeue_def wait_pred_def clear_eq invalidate_def Let_def)
  have c: "valid (fst (run_ops ops (q, h))) = valid q" for q and h :: "'a heap"
  proof (induction ops arbitrary: q h)
    case Nil
    then show ?case by simp
  next
    case (Cons y ys)
    obtain r q' h' where r: "run_op y (q, h) = (r, q', h')"
      by (cases "run_op y (q, h)")
    then have "valid q' = valid q"
      using b [of y q h] by simp
    then show ?case using Cons.IH [of q' h'] r by simp
  qed
  have d: "valid (pool_queue_m (step a s)) = valid (pool_queue_m s)" for a and s :: "'b task_pool"
    by (cases a)
      (auto simp: step_def submit_def enqueue_def Let_def clear_eq invalidate_def
        thread_step_frame destroy_step_def task_queue_dtor_eq set_worker_def split: pool_pc.splits)
  have e: "valid (pool_queue_m (exec as s)) = valid (pool_queue_m s)" for s :: "'b task_pool"
    by (induction as arbitrary: s) (simp_all add: d)
  have f: "valid_m q1 = valid_m q2 \<and> queue_m q1 = queue_m q2 \<longrightarrow>
        fst (run_op x (q1, h)) = fst (run_op x (q2, h))"
    by (cases x)
      (simp_all add: enqueue_def dequeue_def wait_pred_def empty_def is_valid_def Let_def)
  show ?thesis
    using a b [of x q h] c [of task_queue_ctor h] e [of "task_pool_ctor n"] f
    by (simp add: task_queue_ctor_def task_pool_ctor_def)
qed

text \<open>
  C9 at concrete queues: \<^verbatim>\<open>dequeue\<close> returns the same on two queues that differ in
  \<^verbatim>\<open>valid\<close> only, and \<^verbatim>\<open>valid\<close> is still true after four operations.
\<close>

theorem valid_member_vestigial_witness:
  "fst (run_op (Dequeue 0 None)
          (task_queue_ctor\<lparr>queue_m := [Some 0], valid := False\<rparr>, [] :: int heap))
     = fst (run_op (Dequeue 0 None) (task_queue_ctor\<lparr>queue_m := [Some 0]\<rparr>, [] :: int heap))
   \<and> valid (fst (run_ops [Invalidate, Clear, Enqueue (Returns (1::int)) 0, Dequeue 0 None]
        (task_queue_ctor, [])))"
proof -
  have p: "valid_m (task_queue_ctor\<lparr>queue_m := [Some 0], valid := False\<rparr>)
             = valid_m (task_queue_ctor\<lparr>queue_m := [Some 0]\<rparr>)
           \<and> queue_m (task_queue_ctor\<lparr>queue_m := [Some 0], valid := False\<rparr>)
             = queue_m (task_queue_ctor\<lparr>queue_m := [Some 0]\<rparr>)"
    by simp
  show ?thesis
    using p valid_member_vestigial [where x = "Dequeue 0 None"
      and ?q1.0 = "task_queue_ctor\<lparr>queue_m := [Some 0], valid := False\<rparr>"
      and ?q2.0 = "task_queue_ctor\<lparr>queue_m := [Some 0]\<rparr>" and h = "[] :: int heap"
      and q = task_queue_ctor and b = True and n = 0 and as = "[] :: int action list"
      and ops = "[Invalidate, Clear, Enqueue (Returns (1::int)) 0, Dequeue 0 None]"]
    by blast
qed

text \<open>
  C10. \<^verbatim>\<open>dequeue\<close> returns false if and only if the queue is invalid, and true if and only
  if the queue is valid and not empty. \<^verbatim>\<open>clear\<close> on a valid queue does not make a
  blocked \<^verbatim>\<open>dequeue\<close> return: the waiter is woken (the wait set is empty after
  \<^verbatim>\<open>clear\<close>), finds the wait predicate false and blocks again. For a worker thread: after
  \<^verbatim>\<open>clear\<close> and the worker's next step it is still inside \<^verbatim>\<open>dequeue\<close>, back in the
  wait set, and has taken nothing.
\<close>

theorem dequeue_closed_iff_invalid:
  "(fst (dequeue t out (q, h)) = Returned False \<longleftrightarrow> \<not> valid_m q)
   \<and> (fst (dequeue t out (q, h)) = Returned True \<longleftrightarrow> valid_m q \<and> queue_m q \<noteq> [])
   \<and> (valid_m q \<longrightarrow>
        condition_m (fst (clear (q, h))) = []
        \<and> dequeue t out (clear (q, h))
            = (Blocked, out, (fst (clear (q, h)))\<lparr>condition_m := [t]\<rparr>, snd (clear (q, h))))
   \<and> (valid_m (pool_queue_m s) \<and> i < length (workers_m s)
        \<and> worker_m (workers_m s ! i) = In_dequeue \<and> owner s \<noteq> Destroyed \<and> owner s \<noteq> Aborted \<longrightarrow>
        i \<notin> set (condition_m (pool_queue_m (step Call_clear s)))
        \<and> worker_m (workers_m (step (Work i) (step Call_clear s)) ! i) = In_dequeue
        \<and> i \<in> set (condition_m (pool_queue_m (step (Work i) (step Call_clear s))))
        \<and> workers_m (step (Work i) (step Call_clear s)) = workers_m s)"
proof -
  have a: "(fst (dequeue t out (q, h)) = Returned False \<longleftrightarrow> \<not> valid_m q)
     \<and> (fst (dequeue t out (q, h)) = Returned True \<longleftrightarrow> valid_m q \<and> queue_m q \<noteq> [])"
    by (auto simp: dequeue_def wait_pred_def)
  have b: "valid_m q \<longrightarrow>
        condition_m (fst (clear (q, h))) = []
        \<and> dequeue t out (clear (q, h))
            = (Blocked, out, (fst (clear (q, h)))\<lparr>condition_m := [t]\<rparr>, snd (clear (q, h)))"
    by (simp add: dequeue_def wait_pred_def clear_eq)
  have c: "valid_m (pool_queue_m s) \<and> i < length (workers_m s)
        \<and> worker_m (workers_m s ! i) = In_dequeue \<and> owner s \<noteq> Destroyed \<and> owner s \<noteq> Aborted \<longrightarrow>
        i \<notin> set (condition_m (pool_queue_m (step Call_clear s)))
        \<and> worker_m (workers_m (step (Work i) (step Call_clear s)) ! i) = In_dequeue
        \<and> i \<in> set (condition_m (pool_queue_m (step (Work i) (step Call_clear s))))
        \<and> workers_m (step (Work i) (step Call_clear s)) = workers_m s"
    by (simp add: step_def thread_step_def dequeue_def wait_pred_def clear_eq Let_def)
  show ?thesis using a b c by blast
qed

text \<open>
  C10 at concrete queues: an invalid queue returns false, a valid queue with a unit
  returns true, a waiter woken by \<^verbatim>\<open>clear\<close> blocks again, also as a worker of a pool.
\<close>

theorem dequeue_closed_iff_invalid_witness:
  "fst (dequeue 1 None (invalidate task_queue_ctor, [] :: int heap)) = Returned False
   \<and> fst (dequeue 1 None (task_queue_ctor\<lparr>queue_m := [Some 0]\<rparr>, [] :: int heap)) = Returned True
   \<and> condition_m (fst (clear (task_queue_ctor\<lparr>queue_m := [Some 0], condition_m := [1]\<rparr>,
         [\<lparr>stored = Returns (1::int), state = Not_ready\<rparr>]))) = []
   \<and> fst (dequeue 1 None (clear (task_queue_ctor\<lparr>queue_m := [Some 0], condition_m := [1]\<rparr>,
         [\<lparr>stored = Returns (1::int), state = Not_ready\<rparr>]))) = Blocked
   \<and> worker_m (workers_m (step (Work 0) (step Call_clear
         (exec [Work 0, Work 0] (task_pool_ctor (Suc 0) :: int task_pool)))) ! 0) = In_dequeue
   \<and> 0 \<in> set (condition_m (pool_queue_m (step (Work 0) (step Call_clear
         (exec [Work 0, Work 0] (task_pool_ctor (Suc 0) :: int task_pool))))))"
proof -
  let ?s = "exec [Work 0, Work 0] (task_pool_ctor (Suc 0) :: int task_pool)"
  let ?h = "[\<lparr>stored = Returns (1::int), state = Not_ready\<rparr>]"
  have s: "?s = \<lparr>pool_queue_m = task_queue_ctor\<lparr>condition_m := [0]\<rparr>,
                 workers_m = [\<lparr>stop_m = False, worker_m = In_dequeue, task = None\<rparr>],
                 heap = [], log = [], stderr = [], owner = Alive\<rparr>"
    by (simp add: pool_eval)
  have 1: "fst (dequeue 1 None (invalidate task_queue_ctor, [] :: int heap)) = Returned False"
    using dequeue_closed_iff_invalid [where t = 1 and out = None and h = "[] :: int heap"
        and q = "invalidate task_queue_ctor" and i = 0 and s = ?s]
    by (simp add: invalidate_def)
  have 2: "fst (dequeue 1 None (task_queue_ctor\<lparr>queue_m := [Some 0]\<rparr>, [] :: int heap)) = Returned True"
    using dequeue_closed_iff_invalid [where t = 1 and out = None and h = "[] :: int heap"
        and q = "task_queue_ctor\<lparr>queue_m := [Some 0]\<rparr>" and i = 0 and s = ?s]
    by (simp add: task_queue_ctor_def)
  have 3: "condition_m (fst (clear (task_queue_ctor\<lparr>queue_m := [Some 0], condition_m := [1]\<rparr>, ?h))) = []
     \<and> fst (dequeue 1 None (clear (task_queue_ctor\<lparr>queue_m := [Some 0], condition_m := [1]\<rparr>, ?h)))
         = Blocked"
    using dequeue_closed_iff_invalid [where t = 1 and out = None and h = ?h
        and q = "task_queue_ctor\<lparr>queue_m := [Some 0], condition_m := [1]\<rparr>" and i = 0 and s = ?s]
    by (simp add: task_queue_ctor_def)
  have 4: "worker_m (workers_m (step (Work 0) (step Call_clear ?s)) ! 0) = In_dequeue
     \<and> 0 \<in> set (condition_m (pool_queue_m (step (Work 0) (step Call_clear ?s))))"
    using dequeue_closed_iff_invalid [where t = 1 and out = None and h = "[] :: int heap"
        and q = task_queue_ctor and i = 0 and s = ?s]
    unfolding s by (simp add: task_queue_ctor_def)
  show ?thesis using 1 2 3 4 by blast
qed

end
